theory Spec2Isabelle
  imports Main "HOL-Library.Sublist" "HOL-Library.AList" "HOL-Library.Char_ord"
begin

section \<open>Python values and failures\<close>

text \<open>
  The notebooks are Python. A failing operation raises; here it is a value of the
  type \<open>error\<close>, and a function that can raise returns \<open>error + 'a\<close> with \<open>Inl\<close> the error.
  \<open>IndexError\<close> is a list read out of range, \<open>ValueError\<close> is \<open>max\<close> of an empty
  iterable, \<open>KeyError\<close> a dictionary read of an absent key. The last three are the error
  kinds the specification names for its entry points.
\<close>

datatype error =
    IndexError
  | ValueError
  | KeyError
  | ConfigurationError
  | UnknownTokenError
  | SegmentationError

text \<open>\<open>text[i]\<close> for a non-negative index: the element, or \<open>IndexError\<close> past the end.\<close>

definition getitem :: "'a list \<Rightarrow> nat \<Rightarrow> error + 'a" where
  "getitem xs i = (if i < length xs then Inr (xs ! i) else Inl IndexError)"

section \<open>Rewriting a sequence: \<open>replace_pairs\<close>\<close>

text \<open>
  Part 3 (the algorithm):
  \<^verbatim>\<open>
  def replace_pairs(text, pair, idx):
    new_text = []
    i = 0
    while i < len(text):
      if text[i] == pair[0] and i < len(text) - 1 and text[i + 1] == pair[1]:
        new_text.append(idx)
        i += 2
      else:
        new_text.append(text[i])
        i += 1
    return new_text
  \<close>
  The while loop is the function \<open>replace_loop\<close> on the loop variables \<open>i\<close> and
  \<open>new_text\<close>. Every subscript goes through \<open>getitem\<close>, and \<open>and\<close> evaluates its
  operands left to right, stopping at the first false one: \<open>text[i + 1]\<close> is read only
  when \<open>text[i] == pair[0]\<close> and \<open>i < len(text) - 1\<close> both hold. The comparison
  \<open>i < len(text) - 1\<close> is one of Python integers, so it is written over \<open>int\<close>.
\<close>

function replace_loop :: "'a list \<Rightarrow> 'a \<times> 'a \<Rightarrow> 'a \<Rightarrow> nat \<Rightarrow> 'a list \<Rightarrow> error + 'a list" where
  "replace_loop text pair idx i new_text =
     (if i < length text then
        (case getitem text i of
           Inl e \<Rightarrow> Inl e
         | Inr a \<Rightarrow>
             if a = fst pair \<and> int i < int (length text) - 1 then
               (case getitem text (i + 1) of
                  Inl e \<Rightarrow> Inl e
                | Inr b \<Rightarrow>
                    if b = snd pair
                    then replace_loop text pair idx (i + 2) (new_text @ [idx])
                    else replace_loop text pair idx (i + 1) (new_text @ [a]))
             else replace_loop text pair idx (i + 1) (new_text @ [a]))
      else Inr new_text)"
  by pat_completeness auto
termination
  by (relation "measure (\<lambda>(text, pair, idx, i, new_text). length text - i)") auto

declare replace_loop.simps [simp del]

definition replace_pairs :: "'a list \<Rightarrow> 'a \<times> 'a \<Rightarrow> 'a \<Rightarrow> error + 'a list" where
  "replace_pairs text pair idx = replace_loop text pair idx 0 []"

text \<open>
  Part 4 (nuances) has the same function on lists of strings, without the parameter
  \<open>idx\<close>: the symbol appended for a merged pair is the concatenation
  \<open>pair[0] + pair[1]\<close>. The loop is the same one, so the model shares it.
  \<^verbatim>\<open>
  def replace_pairs(text, pair):
    ...
      if text[i] == pair[0] and i < len(text) - 1 and text[i + 1] == pair[1]:
        new_text.append(pair[0]+ pair[1])
        i += 2
    ...
  \<close>
\<close>

definition replace_pairs_str :: "'c list list \<Rightarrow> 'c list \<times> 'c list \<Rightarrow> error + 'c list list" where
  "replace_pairs_str text pair = replace_loop text pair (fst pair @ snd pair) 0 []"

text \<open>
  The rewriting step in the specification's words: scan left to right, replace an
  occurrence of the pair by the new symbol and go on after the two symbols consumed;
  copy any other symbol.
\<close>

fun merge_scan :: "'a \<times> 'a \<Rightarrow> 'a \<Rightarrow> 'a list \<Rightarrow> 'a list" where
  "merge_scan pair idx (x # y # rest) =
     (if x = fst pair \<and> y = snd pair then idx # merge_scan pair idx rest
      else x # merge_scan pair idx (y # rest))"
| "merge_scan pair idx [x] = [x]"
| "merge_scan pair idx [] = []"

lemma replace_loop_scan:
  "i \<le> length xs \<Longrightarrow>
   replace_loop xs pair idx i acc = Inr (acc @ merge_scan pair idx (drop i xs))"
proof (induction xs pair idx i acc rule: replace_loop.induct)
  case (1 xs pair idx i acc)
  show ?case
  proof (cases "i < length xs")
    case False
    with "1.prems" show ?thesis by (subst replace_loop.simps) simp
  next
    case True
    then have d: "drop i xs = xs ! i # drop (Suc i) xs"
      by (simp add: Cons_nth_drop_Suc)
    have g: "getitem xs i = Inr (xs ! i)"
      using True by (simp add: getitem_def)
    show ?thesis
    proof (cases "Suc i < length xs")
      case False
      with True have e: "drop (Suc i) xs = []" by simp
      have "replace_loop xs pair idx i acc = replace_loop xs pair idx (i + 1) (acc @ [xs ! i])"
        using True False g by (subst replace_loop.simps) simp
      also have "\<dots> = Inr ((acc @ [xs ! i]) @ merge_scan pair idx (drop (i + 1) xs))"
        using True False g by (intro "1.IH"(3)) auto
      finally show ?thesis using d e by simp
    next
      case lt: True
      then have d2: "drop (Suc i) xs = xs ! Suc i # drop (Suc (Suc i)) xs"
        by (simp add: Cons_nth_drop_Suc)
      have g2: "getitem xs (i + 1) = Inr (xs ! Suc i)"
        using lt by (simp add: getitem_def)
      show ?thesis
      proof (cases "xs ! i = fst pair \<and> xs ! Suc i = snd pair")
        case hit: True
        have "replace_loop xs pair idx i acc = replace_loop xs pair idx (i + 2) (acc @ [idx])"
          using True lt g g2 hit by (subst replace_loop.simps) simp
        also have "\<dots> = Inr ((acc @ [idx]) @ merge_scan pair idx (drop (i + 2) xs))"
          using True lt g g2 hit by (intro "1.IH"(1)) auto
        finally show ?thesis using d d2 hit by simp
      next
        case miss: False
        have "replace_loop xs pair idx i acc = replace_loop xs pair idx (i + 1) (acc @ [xs ! i])"
          using True lt g g2 miss by (subst replace_loop.simps) auto
        also have "\<dots> = Inr ((acc @ [xs ! i]) @ merge_scan pair idx (drop (i + 1) xs))"
        proof (cases "xs ! i = fst pair")
          case True
          with miss have "xs ! Suc i \<noteq> snd pair" by simp
          then show ?thesis
            using \<open>i < length xs\<close> lt g g2 True by (intro "1.IH"(2)) auto
        next
          case False
          then show ?thesis
            using \<open>i < length xs\<close> lt g by (intro "1.IH"(3)) auto
        qed
        finally show ?thesis using d d2 miss by auto
      qed
    qed
  qed
qed


section \<open>Counting pairs: \<open>get_stats\<close>\<close>

text \<open>
  A Python \<open>dict\<close> keeps its keys in insertion order, and the training loop depends on
  that order, so a dictionary is an association list with distinct keys, oldest first.
  \<open>dict_get d k v\<close> is \<open>d.get(k, v)\<close>; \<open>dict_set d k v\<close> is \<open>d[k] = v\<close>: an existing
  key keeps its position, a new key goes to the end.
\<close>

fun dict_get :: "('k \<times> 'v) list \<Rightarrow> 'k \<Rightarrow> 'v \<Rightarrow> 'v" where
  "dict_get [] k v = v"
| "dict_get ((k', v') # d) k v = (if k' = k then v' else dict_get d k v)"

fun dict_set :: "('k \<times> 'v) list \<Rightarrow> 'k \<Rightarrow> 'v \<Rightarrow> ('k \<times> 'v) list" where
  "dict_set [] k v = [(k, v)]"
| "dict_set ((k', v') # d) k v = (if k' = k then (k, v) # d else (k', v') # dict_set d k v)"

text \<open>
  Part 3:
  \<^verbatim>\<open>
  def get_stats(chars):
      stats = {}
      for i in range(len(chars)-1):
          stats[(chars[i], chars[i+1])] = stats.get((chars[i], chars[i+1]), 0) + 1
      stats = dict(sorted(stats.items(), key=lambda item: item[1], reverse=True))
      return stats
  \<close>
  \<open>adjacent chars\<close> is the sequence of keys \<open>(chars[i], chars[i+1])\<close> the loop visits,
  for \<open>i\<close> in \<open>range(len(chars)-1)\<close>; the range is empty for a sequence of fewer than
  two symbols, and both subscripts are below \<open>len(chars)\<close> for every \<open>i\<close> of the range.
  \<open>count_pairs\<close> is the loop body folded over those keys, from the dictionary
  \<open>stats\<close> built so far. \<open>sorted\<close> is stable, also with \<open>reverse=True\<close>: items of equal
  count keep their order; \<open>sort_key\<close> is the stable insertion sort of the library, here
  on the negated count.
\<close>

definition adjacent :: "'a list \<Rightarrow> ('a \<times> 'a) list" where
  "adjacent chars = map (\<lambda>i. (chars ! i, chars ! (i + 1))) [0..<length chars - 1]"

definition count_pairs :: "(('a \<times> 'a) \<times> nat) list \<Rightarrow> ('a \<times> 'a) list \<Rightarrow> (('a \<times> 'a) \<times> nat) list" where
  "count_pairs stats keys = foldl (\<lambda>stats k. dict_set stats k (dict_get stats k 0 + 1)) stats keys"

definition sorted_items :: "('k \<times> nat) list \<Rightarrow> ('k \<times> nat) list" where
  "sorted_items stats = sort_key (\<lambda>item. - int (snd item)) stats"

definition get_stats :: "'a list \<Rightarrow> (('a \<times> 'a) \<times> nat) list" where
  "get_stats chars = sorted_items (count_pairs [] (adjacent chars))"

text \<open>
  Part 4 adds one line to the function: only the pairs seen more than once are returned.
  \<^verbatim>\<open>
      stats_gt_1 = {k: v for k, v in stats.items() if v > 1}
      return stats_gt_1
  \<close>
\<close>

definition get_stats_gt_1 :: "'a list \<Rightarrow> (('a \<times> 'a) \<times> nat) list" where
  "get_stats_gt_1 chars = filter (\<lambda>(k, v). v > 1) (get_stats chars)"

text \<open>
  \<open>max(stats, key=stats.get)\<close> iterates over the keys in the dictionary's order and
  returns the first key whose value is maximal; on an empty dictionary it raises
  \<open>ValueError\<close>.
\<close>

fun max_scan :: "'k \<times> nat \<Rightarrow> ('k \<times> nat) list \<Rightarrow> 'k \<times> nat" where
  "max_scan best [] = best"
| "max_scan best (item # items) = max_scan (if snd item > snd best then item else best) items"

fun max_key :: "('k \<times> nat) list \<Rightarrow> error + 'k" where
  "max_key [] = Inl ValueError"
| "max_key (item # items) = Inr (fst (max_scan item items))"

text \<open>
  The training loop of Part 4, run on the list of the characters of a text:
  \<^verbatim>\<open>
  for _ in range(num_merges):
      stats = get_stats(tokens)
      pair = max(stats, key=stats.get)
      tokens = replace_pairs(tokens, pair)
  \<close>
  with Part 4's \<open>get_stats\<close> and \<open>replace_pairs\<close>. An exception leaves the loop.
\<close>

fun merge_loop :: "nat \<Rightarrow> 'c list list \<Rightarrow> error + 'c list list" where
  "merge_loop 0 tokens = Inr tokens"
| "merge_loop (Suc num_merges) tokens =
     (case max_key (get_stats_gt_1 tokens) of
        Inl e \<Rightarrow> Inl e
      | Inr pair \<Rightarrow>
          (case replace_pairs_str tokens pair of
             Inl e \<Rightarrow> Inl e
           | Inr tokens' \<Rightarrow> merge_loop num_merges tokens'))"


text \<open>
  The code cells of Part 3 that perform one merge by hand, each with its own constants
  for \<open>pair\<close> and \<open>idx\<close>:
  \<^verbatim>\<open>
  text_values = replace_pairs(text_values, (240, 159), 256)
  tokens.append(256)
  merges[(240, 159)] = 256
  \<close>
  The notebook's variables are the fields of \<open>notebook\<close>: \<open>tokens\<close> is the list of the
  symbols known so far (the vocabulary), \<open>merges\<close> the dictionary of the merged pairs.
\<close>

record notebook =
  text_values :: "nat list"
  tokens :: "nat list"
  merges :: "((nat \<times> nat) \<times> nat) list"

definition merge_cell :: "nat \<times> nat \<Rightarrow> nat \<Rightarrow> notebook \<Rightarrow> error + notebook" where
  "merge_cell pair idx nb =
     (case replace_pairs (text_values nb) pair idx of
        Inl e \<Rightarrow> Inl e
      | Inr new_text \<Rightarrow>
          Inr (nb\<lparr>text_values := new_text,
                  tokens := tokens nb @ [idx],
                  merges := dict_set (merges nb) pair idx\<rparr>))"

section \<open>Properties of \<open>replace_pairs\<close>\<close>

lemma replace_pairs_scan: "replace_pairs xs pair idx = Inr (merge_scan pair idx xs)"
  by (simp add: replace_pairs_def replace_loop_scan)

lemma replace_pairs_str_scan:
  "replace_pairs_str ts pair = Inr (merge_scan pair (fst pair @ snd pair) ts)"
  by (simp add: replace_pairs_str_def replace_loop_scan)

lemma adjacent_zip: "adjacent xs = zip xs (tl xs)"
  by (rule nth_equalityI) (auto simp: adjacent_def nth_tl)

lemma adjacent_simps [simp]:
  "adjacent [] = []"
  "adjacent [x] = []"
  "adjacent (x # y # xs) = (x, y) # adjacent (y # xs)"
  by (simp_all add: adjacent_zip)

lemma length_merge_scan_le: "length (merge_scan pair idx xs) \<le> length xs"
  by (induction pair idx xs rule: merge_scan.induct) auto

lemma length_merge_scan_less:
  "pair \<in> set (adjacent xs) \<Longrightarrow> length (merge_scan pair idx xs) < length xs"
proof (induction pair idx xs rule: merge_scan.induct)
  case (1 pair idx x y rest)
  show ?case
  proof (cases "x = fst pair \<and> y = snd pair")
    case True
    have "length (merge_scan pair idx rest) \<le> length rest" by (rule length_merge_scan_le)
    with True show ?thesis by simp
  next
    case False
    with "1.prems" have "pair \<in> set (adjacent (y # rest))" by auto
    with False "1.IH"(2) have "length (merge_scan pair idx (y # rest)) < length (y # rest)"
      by blast
    with False show ?thesis by auto
  qed
qed simp_all

lemma merge_scan_last_left:
  "fst pair \<noteq> snd pair \<Longrightarrow>
   \<exists>r. merge_scan pair idx (xs @ [fst pair]) = r @ [fst pair]"
proof (induction pair idx xs rule: merge_scan.induct)
  case (1 pair idx x y rest)
  show ?case
  proof (cases "x = fst pair \<and> y = snd pair")
    case True
    from "1.IH"(1)[OF True "1.prems"] obtain r
      where "merge_scan pair idx (rest @ [fst pair]) = r @ [fst pair]" ..
    with True have "merge_scan pair idx ((x # y # rest) @ [fst pair]) = (idx # r) @ [fst pair]"
      by simp
    then show ?thesis ..
  next
    case False
    from "1.IH"(2)[OF False "1.prems"] obtain r
      where "merge_scan pair idx ((y # rest) @ [fst pair]) = r @ [fst pair]" ..
    with False have "merge_scan pair idx ((x # y # rest) @ [fst pair]) = (x # r) @ [fst pair]"
      by auto
    then show ?thesis ..
  qed
next
  case (2 pair idx x)
  then have "merge_scan pair idx ([x] @ [fst pair]) = [x] @ [fst pair]" by auto
  then show ?case ..
next
  case (3 pair idx)
  have "merge_scan pair idx ([] @ [fst pair]) = [] @ [fst pair]" by simp
  then show ?case ..
qed

text \<open>
  Claim C4. For every symbol sequence and every pair, \<open>replace_pairs\<close> (both variants)
  computes the left-to-right scan \<open>merge_scan\<close>: an occurrence of the pair is replaced by
  the new symbol and the scan goes on behind the two symbols it consumed, so the
  occurrences replaced never overlap. On the run \<open>a a a\<close> with the pair \<open>(a, a)\<close> the
  result is one merged symbol followed by one \<open>a\<close>.
\<close>

theorem replace_pairs_nonoverlapping:
  "replace_pairs xs pair idx = Inr (merge_scan pair idx xs)
   \<and> replace_pairs_str ts spair = Inr (merge_scan spair (fst spair @ snd spair) ts)
   \<and> replace_pairs [a, a, a] (a, a) new = Inr [new, a]
   \<and> replace_pairs_str [s, s, s] (s, s) = Inr [s @ s, s]"
  by (simp add: replace_pairs_scan replace_pairs_str_scan)

theorem replace_pairs_nonoverlapping_witness:
  "replace_pairs [97, 98, 97, 98, 99 :: nat] (97, 98) 256 = Inr [256, 256, 99]
   \<and> replace_pairs [97, 97, 97 :: nat] (97, 97) 256 = Inr [256, 97]
   \<and> replace_pairs_str [''a'', ''a'', ''a''] (''a'', ''a'') = Inr [''aa'', ''a'']"
  using replace_pairs_nonoverlapping
    [of "[97, 98, 97, 98, 99 :: nat]" "(97, 98)" 256 "[''a'', ''a'', ''a'']" "(''a'', ''a'')"
        "97 :: nat" 256 "''a''"]
  by simp

text \<open>
  Claim C10, as amended. \<open>replace_pairs\<close> is total and reads no subscript out of range:
  for every list and every pair it returns a list, never \<open>IndexError\<close>. The empty list
  gives the empty list. Whenever the scan stands at the last position, the symbol there
  is copied, whether or not it equals the pair's left element: the guard
  \<open>i < len(text) - 1\<close> is false there and \<open>text[i + 1]\<close> is not read. So a last symbol
  equal to the left element of a pair of two different symbols is always copied through.
  The scan does not reach the last position when the symbol there was taken as the right
  element of a merge that starts one position earlier, which a pair \<open>(a, a)\<close> allows
  (\<open>replace_pairs_last_consumed\<close> below).
\<close>

theorem replace_pairs_in_bounds:
  "(\<exists>new_text. replace_pairs xs pair idx = Inr new_text)
   \<and> (\<exists>new_text. replace_pairs_str ts spair = Inr new_text)
   \<and> replace_pairs [] pair idx = Inr []
   \<and> replace_pairs_str [] spair = Inr []
   \<and> (xs \<noteq> [] \<longrightarrow> replace_loop xs pair idx (length xs - 1) acc = Inr (acc @ [last xs]))
   \<and> replace_pairs [fst pair] pair idx = Inr [fst pair]
   \<and> (fst pair \<noteq> snd pair \<longrightarrow>
        (\<exists>r. replace_pairs (xs @ [fst pair]) pair idx = Inr (r @ [fst pair])))"
proof -
  have "xs \<noteq> [] \<Longrightarrow> replace_loop xs pair idx (length xs - 1) acc = Inr (acc @ [last xs])"
    by (simp add: replace_loop_scan last_conv_nth Cons_nth_drop_Suc [symmetric])
  moreover have "fst pair \<noteq> snd pair \<Longrightarrow>
      \<exists>r. replace_pairs (xs @ [fst pair]) pair idx = Inr (r @ [fst pair])"
    using merge_scan_last_left [of pair idx xs] by (simp add: replace_pairs_scan)
  ultimately show ?thesis
    by (simp add: replace_pairs_scan replace_pairs_str_scan)
qed

theorem replace_pairs_in_bounds_witness:
  "replace_loop [98, 97 :: nat] (97, 99) 256 1 [98] = Inr [98, 97]
   \<and> (\<exists>r. replace_pairs [98, 97, 97 :: nat] (97, 99) 256 = Inr (r @ [97]))"
  using replace_pairs_in_bounds
    [of "[98, 97 :: nat]" "(97, 99)" 256 "[] :: string list" "([], [])" "[98]"]
  by simp

text \<open>
  With the pair \<open>(a, a)\<close> the list \<open>a a\<close> becomes the one merged symbol: the last symbol
  equals the pair's left element and is not copied through.
\<close>

theorem replace_pairs_last_consumed:
  "replace_pairs [97, 97 :: nat] (97, 97) 256 = Inr [256]"
  by (simp add: replace_pairs_scan)

text \<open>
  Claim C6. One merge step of the notebook (\<open>merge_cell\<close>) always succeeds, makes the
  list of known symbols exactly one longer and does not lengthen the text; the text gets
  strictly shorter when the merged pair occurs in it. The same holds for any list of
  chunks each rewritten by \<open>replace_pairs\<close>: the total number of symbols does not grow,
  and it shrinks when the pair occurs in some chunk.
\<close>

theorem merge_step_sizes:
  "(\<exists>nb'. merge_cell pair idx nb = Inr nb'
      \<and> length (tokens nb') = length (tokens nb) + 1
      \<and> length (text_values nb') \<le> length (text_values nb)
      \<and> (pair \<in> set (adjacent (text_values nb)) \<longrightarrow>
           length (text_values nb') < length (text_values nb)))
   \<and> (list_all2 (\<lambda>c c'. replace_pairs c cpair new = Inr c') chunks chunks' \<longrightarrow>
        sum_list (map length chunks') \<le> sum_list (map length chunks)
        \<and> ((\<exists>c \<in> set chunks. cpair \<in> set (adjacent c)) \<longrightarrow>
             sum_list (map length chunks') < sum_list (map length chunks)))"
proof (intro conjI impI)
  show "\<exists>nb'. merge_cell pair idx nb = Inr nb'
      \<and> length (tokens nb') = length (tokens nb) + 1
      \<and> length (text_values nb') \<le> length (text_values nb)
      \<and> (pair \<in> set (adjacent (text_values nb)) \<longrightarrow>
           length (text_values nb') < length (text_values nb))"
    by (simp add: merge_cell_def replace_pairs_scan length_merge_scan_le length_merge_scan_less)
next
  assume "list_all2 (\<lambda>c c'. replace_pairs c cpair new = Inr c') chunks chunks'"
  then have eq: "chunks' = map (merge_scan cpair new) chunks"
    by (induction rule: list_all2_induct) (auto simp: replace_pairs_scan)
  show "sum_list (map length chunks') \<le> sum_list (map length chunks)"
    unfolding eq by (induction chunks) (auto simp: length_merge_scan_le add_le_mono)
  assume "\<exists>c \<in> set chunks. cpair \<in> set (adjacent c)"
  then show "sum_list (map length chunks') < sum_list (map length chunks)"
    unfolding eq
  proof (induction chunks)
    case Nil
    then show ?case by simp
  next
    case (Cons c cs)
    have le: "length (merge_scan cpair new c) \<le> length c"
      by (rule length_merge_scan_le)
    have les: "sum_list (map length (map (merge_scan cpair new) cs)) \<le> sum_list (map length cs)"
      by (induction cs) (auto simp: length_merge_scan_le add_le_mono)
    show ?case
    proof (cases "cpair \<in> set (adjacent c)")
      case True
      then have "length (merge_scan cpair new c) < length c"
        by (rule length_merge_scan_less)
      with les show ?thesis by simp
    next
      case False
      with Cons.prems have "\<exists>c \<in> set cs. cpair \<in> set (adjacent c)" by simp
      with Cons.IH le show ?thesis by simp
    qed
  qed
qed

theorem merge_step_sizes_witness:
  "(\<exists>nb'. merge_cell (240, 159) 256
        \<lparr>text_values = [240, 159, 152, 132, 32], tokens = [32, 132, 152, 159, 240], merges = []\<rparr> = Inr nb'
      \<and> length (tokens nb') = 6 \<and> length (text_values nb') < 5)
   \<and> sum_list (map length [[256, 98 :: nat], [99]]) < sum_list (map length [[97, 97, 98 :: nat], [99]])"
  using merge_step_sizes [of "(240, 159)" 256
      "\<lparr>text_values = [240, 159, 152, 132, 32], tokens = [32, 132, 152, 159, 240], merges = []\<rparr>"
      "(97, 97)" 256 "[[97, 97, 98 :: nat], [99]]" "[[256, 98], [99]]"]
  by (auto simp: replace_pairs_scan)

section \<open>Which pair is selected\<close>

text \<open>
  \<open>first_most_frequent p keys\<close>: in the sequence \<open>keys\<close> of pair occurrences, read
  in scan order, \<open>p\<close> occurs, no pair occurs more often than \<open>p\<close>, and every pair met
  before the first occurrence of \<open>p\<close> occurs strictly less often. So \<open>p\<close> is the pair
  met first among the pairs of the highest count.
\<close>

definition first_most_frequent :: "'k \<Rightarrow> 'k list \<Rightarrow> bool" where
  "first_most_frequent p keys \<longleftrightarrow>
     p \<in> set keys
     \<and> (\<forall>q \<in> set (takeWhile (\<lambda>q. q \<noteq> p) keys). count_list keys q < count_list keys p)
     \<and> (\<forall>q \<in> set keys. count_list keys q \<le> count_list keys p)"

lemma dict_set_update: "dict_set d k v = AList.update k v d"
  by (induction d) auto

lemma dict_get_map_of: "dict_get d k v = (case map_of d k of None \<Rightarrow> v | Some w \<Rightarrow> w)"
  by (induction d) auto

lemma count_pairs_Nil [simp]: "count_pairs d [] = d"
  by (simp add: count_pairs_def)

lemma count_pairs_Cons [simp]:
  "count_pairs d (p # ps) = count_pairs (dict_set d p (dict_get d p 0 + 1)) ps"
  by (simp add: count_pairs_def)

lemma count_pairs_append: "count_pairs d (ps @ qs) = count_pairs (count_pairs d ps) qs"
  by (simp add: count_pairs_def)

lemma foldl_count_pairs:
  "foldl (\<lambda>stats chunk. count_pairs stats (adjacent chunk)) d chunks
     = count_pairs d (concat (map adjacent chunks))"
  by (induction chunks arbitrary: d) (simp_all add: count_pairs_append)

lemma keys_dict_set:
  "map fst (dict_set d k v) = (if k \<in> fst ` set d then map fst d else map fst d @ [k])"
  by (simp add: dict_set_update update_keys)

lemma distinct_dict_set: "distinct (map fst d) \<Longrightarrow> distinct (map fst (dict_set d k v))"
  by (simp add: dict_set_update distinct_update)

lemma dict_get_dict_set: "dict_get (dict_set d k v) k' w = (if k' = k then v else dict_get d k' w)"
  by (induction d) auto

lemma distinct_count_pairs:
  "distinct (map fst d) \<Longrightarrow> distinct (map fst (count_pairs d ps))"
  by (induction ps arbitrary: d) (simp_all add: distinct_dict_set)

lemma dict_get_count_pairs:
  "dict_get (count_pairs d ps) k 0 = dict_get d k 0 + count_list ps k"
  by (induction ps arbitrary: d) (auto simp: dict_get_dict_set)

lemma keys_count_pairs: "fst ` set (count_pairs d ps) = fst ` set d \<union> set ps"
proof (induction ps arbitrary: d)
  case Nil
  then show ?case by simp
next
  case (Cons p ps)
  have "fst ` set (dict_set d p (dict_get d p 0 + 1)) = insert p (fst ` set d)"
    using keys_dict_set [of d p "dict_get d p 0 + 1"]
    by (metis (no_types, lifting) image_set insert_absorb list.simps(15) rotate1.simps(2) set_rotate1)
  with Cons.IH show ?case by auto
qed

lemma dict_get_member:
  "distinct (map fst d) \<Longrightarrow> (k, v) \<in> set d \<Longrightarrow> dict_get d k w = v"
  by (induction d) (auto simp: rev_image_eqI)

lemma count_pairs_value:
  assumes "(k, v) \<in> set (count_pairs [] ps)"
  shows "v = count_list ps k"
proof -
  have "distinct (map fst (count_pairs ([] :: (('a \<times> 'a) \<times> nat) list) ps))"
    by (rule distinct_count_pairs) simp
  from this assms have "dict_get (count_pairs [] ps) k 0 = v"
    by (rule dict_get_member)
  then show ?thesis by (simp add: dict_get_count_pairs)
qed

lemma keys_prefix: "\<exists>rest. map fst (count_pairs d ps) = map fst d @ rest"
proof (induction ps arbitrary: d)
  case Nil
  then show ?case by simp
next
  case (Cons p ps)
  obtain rest where r: "map fst (count_pairs (dict_set d p (dict_get d p 0 + 1)) ps)
      = map fst (dict_set d p (dict_get d p 0 + 1)) @ rest"
    using Cons.IH by blast
  have "\<exists>u. map fst (dict_set d p (dict_get d p 0 + 1)) = map fst d @ u"
    by (simp add: keys_dict_set)
  then obtain u where "map fst (dict_set d p (dict_get d p 0 + 1)) = map fst d @ u" ..
  with r have "map fst (count_pairs d (p # ps)) = map fst d @ (u @ rest)" by simp
  then show ?case ..
qed

lemma prefix_before:
  assumes "xs @ rest = A @ p # B" and "p \<notin> set xs"
  shows "set xs \<subseteq> set A"
  using assms by (auto simp: append_eq_append_conv2 append_eq_Cons_conv)

lemma first_seen_order:
  "map fst (count_pairs d ps) = A @ p # B \<Longrightarrow> p \<notin> fst ` set d \<Longrightarrow>
   \<exists>pre post. ps = pre @ p # post \<and> p \<notin> set pre \<and> set pre \<subseteq> fst ` set d \<union> set A"
proof (induction ps arbitrary: d)
  case Nil
  then have "p \<in> set (map fst d)" by simp
  with Nil.prems(2) show ?case by simp
next
  case (Cons q ps)
  let ?d = "dict_set d q (dict_get d q 0 + 1)"
  show ?case
  proof (cases "p = q")
    case True
    then have "q # ps = [] @ p # ps \<and> p \<notin> set [] \<and> set [] \<subseteq> fst ` set d \<union> set A" by simp
    then show ?thesis by blast
  next
    case False
    have keys: "fst ` set ?d = insert q (fst ` set d)"
      using keys_count_pairs [of d "[q]"] by auto
    with False Cons.prems(2) have fresh: "p \<notin> fst ` set ?d" by simp
    from Cons.prems(1) have eq: "map fst (count_pairs ?d ps) = A @ p # B" by simp
    from Cons.IH [OF eq fresh] obtain pre post
      where s: "ps = pre @ p # post" "p \<notin> set pre" "set pre \<subseteq> fst ` set ?d \<union> set A"
      by blast
    obtain rest where "map fst (count_pairs ?d ps) = map fst ?d @ rest"
      using keys_prefix by blast
    with eq have "map fst ?d @ rest = A @ p # B" by simp
    moreover from fresh have "p \<notin> set (map fst ?d)" by simp
    ultimately have "set (map fst ?d) \<subseteq> set A" by (rule prefix_before)
    with keys have "q \<in> fst ` set d \<union> set A" by auto
    with s keys False
    have "q # ps = (q # pre) @ p # post \<and> p \<notin> set (q # pre)
        \<and> set (q # pre) \<subseteq> fst ` set d \<union> set A"
      by auto
    then show ?thesis by blast
  qed
qed

lemma hd_insort_key:
  "hd (insort_key f x ys) = (if ys = [] \<or> f x \<le> f (hd ys) then x else hd ys)"
  by (cases ys) auto

lemma sort_key_hd_split:
  "xs \<noteq> [] \<Longrightarrow>
   \<exists>pre post. xs = pre @ hd (sort_key f xs) # post
     \<and> (\<forall>y \<in> set pre. f (hd (sort_key f xs)) < f y)
     \<and> (\<forall>y \<in> set post. f (hd (sort_key f xs)) \<le> f y)"
proof (induction xs)
  case Nil
  then show ?case by simp
next
  case (Cons x xs)
  show ?case
  proof (cases "xs = []")
    case True
    then have "x # xs = [] @ hd (sort_key f (x # xs)) # []" by simp
    then show ?thesis by (metis empty_iff empty_set)
  next
    case False
    let ?m = "hd (sort_key f xs)"
    from Cons.IH [OF False] obtain pre post where
      s: "xs = pre @ ?m # post" "\<forall>y \<in> set pre. f ?m < f y" "\<forall>y \<in> set post. f ?m \<le> f y"
      by blast
    have ne: "sort_key f xs \<noteq> []" using False by (metis length_0_conv length_sort)
    have h: "hd (sort_key f (x # xs)) = (if f x \<le> f ?m then x else ?m)"
      using ne by (simp add: hd_insort_key)
    show ?thesis
    proof (cases "f x \<le> f ?m")
      case True
      have all: "\<forall>y \<in> set xs. f x \<le> f y"
      proof
        fix y assume "y \<in> set xs"
        then have "y \<in> set pre \<or> y = ?m \<or> y \<in> set post"
          using s(1) by (metis Un_iff insert_iff list.simps(15) set_append)
        with s(2,3) True show "f x \<le> f y" by (auto intro: order_trans less_imp_le)
      qed
      from True h have "hd (sort_key f (x # xs)) = x" by simp
      with all have "x # xs = [] @ hd (sort_key f (x # xs)) # xs
          \<and> (\<forall>y \<in> set []. f (hd (sort_key f (x # xs))) < f y)
          \<and> (\<forall>y \<in> set xs. f (hd (sort_key f (x # xs))) \<le> f y)"
        by simp
      then show ?thesis by blast
    next
      case False
      with h have hm: "hd (sort_key f (x # xs)) = ?m" by simp
      from False have "f ?m < f x" by simp
      with s have "x # xs = (x # pre) @ ?m # post
          \<and> (\<forall>y \<in> set (x # pre). f ?m < f y)
          \<and> (\<forall>y \<in> set post. f ?m \<le> f y)"
        by simp
      then show ?thesis unfolding hm by blast
    qed
  qed
qed

lemma max_scan_best:
  "\<forall>item \<in> set items. snd item \<le> snd best \<Longrightarrow> max_scan best items = best"
  by (induction items arbitrary: best) auto

lemma sorted_items_sorted: "sorted (map (\<lambda>item. - int (snd item)) (sorted_items d))"
  by (simp add: sorted_items_def)

lemma max_key_sorted_desc:
  assumes "sorted (map (\<lambda>item. - int (snd item)) items)" and "items \<noteq> []"
  shows "max_key items = Inr (fst (hd items))"
proof -
  from assms(2) obtain x xs where i: "items = x # xs" by (cases items) auto
  with assms(1) have "\<forall>item \<in> set xs. snd item \<le> snd x" by auto
  then have "max_scan x xs = x" by (rule max_scan_best)
  with i show ?thesis by simp
qed

lemma max_key_sorted_items:
  "d \<noteq> [] \<Longrightarrow> max_key (sorted_items d) = Inr (fst (hd (sorted_items d)))"
  by (rule max_key_sorted_desc [OF sorted_items_sorted])
     (metis length_0_conv length_sort sorted_items_def)

lemma max_key_Inr_nonempty: "max_key items = Inr p \<Longrightarrow> items \<noteq> []"
  by (cases items) auto

lemma selected_first_seen:
  assumes "max_key (sorted_items (count_pairs [] ps)) = Inr p"
  shows "first_most_frequent p ps"
proof -
  let ?d = "count_pairs [] ps"
  let ?f = "\<lambda>item :: ('a \<times> 'a) \<times> nat. - int (snd item)"
  from assms have "sorted_items ?d \<noteq> []" by (rule max_key_Inr_nonempty)
  then have ne: "?d \<noteq> []" by (auto simp: sorted_items_def)
  define m where "m = hd (sort_key ?f ?d)"
  from max_key_sorted_items [OF ne] assms have p: "p = fst m"
    by (simp add: m_def sorted_items_def)
  from sort_key_hd_split [OF ne, of ?f] obtain pre_d post_d where
    d: "?d = pre_d @ m # post_d"
    and lt: "\<forall>y \<in> set pre_d. ?f m < ?f y"
    and le: "\<forall>y \<in> set post_d. ?f m \<le> ?f y"
    unfolding m_def by blast
  have val: "snd y = count_list ps (fst y)" if "y \<in> set ?d" for y
    using that count_pairs_value [of "fst y" "snd y" ps] by simp
  have m_in: "m \<in> set ?d" using d by simp
  then have cm: "snd m = count_list ps p" using val [of m] p by simp
  have keys: "map fst ?d = map fst pre_d @ p # map fst post_d"
    using d p by simp
  from first_seen_order [OF keys] obtain pre post where
    s: "ps = pre @ p # post" "p \<notin> set pre" "set pre \<subseteq> set (map fst pre_d)"
    by auto
  have tw: "takeWhile (\<lambda>q. q \<noteq> p) ps = pre"
    using s(1,2) by (auto simp: takeWhile_tail)
  have before: "\<forall>q \<in> set pre. count_list ps q < count_list ps p"
  proof
    fix q assume "q \<in> set pre"
    with s(3) obtain y where y: "y \<in> set pre_d" "fst y = q" by auto
    then have "y \<in> set ?d" using d by simp
    then have "snd y = count_list ps q" using val [of y] y(2) by simp
    moreover from lt y(1) have "snd y < snd m" by simp
    ultimately show "count_list ps q < count_list ps p" using cm by simp
  qed
  have all: "\<forall>q \<in> set ps. count_list ps q \<le> count_list ps p"
  proof
    fix q assume "q \<in> set ps"
    then have "q \<in> fst ` set ?d" by (simp add: keys_count_pairs)
    then obtain y where y: "y \<in> set ?d" "fst y = q" by auto
    then have sy: "snd y = count_list ps q" using val [of y] by simp
    from y(1) d have "y \<in> set pre_d \<or> y = m \<or> y \<in> set post_d" by auto
    with lt le have "snd y \<le> snd m" by auto
    with sy cm show "count_list ps q \<le> count_list ps p" by simp
  qed
  from s(1) have "p \<in> set ps" by simp
  with before all tw show ?thesis by (simp add: first_most_frequent_def)
qed

lemma max_key_filter_gt_1:
  assumes "max_key (filter (\<lambda>(k, v). v > 1) (sorted_items d)) = Inr p"
  shows "max_key (sorted_items d) = Inr p \<and> (\<exists>v > 1. (p, v) \<in> set d)"
proof -
  let ?P = "\<lambda>(k :: 'a, v :: nat). v > 1"
  let ?f = "\<lambda>item :: 'a \<times> nat. - int (snd item)"
  let ?s = "sorted_items d"
  from assms have ne: "filter ?P ?s \<noteq> []" by (rule max_key_Inr_nonempty)
  have srt: "sorted (map ?f (filter ?P ?s))"
    using sorted_items_sorted [of d] by (simp add: sorted_filter)
  from max_key_sorted_desc [OF srt ne] assms
  have p: "p = fst (hd (filter ?P ?s))" by simp
  from ne obtain x xs where xs: "?s = x # xs" by (cases ?s) auto
  with sorted_items_sorted [of d] have mx: "\<forall>y \<in> set xs. snd y \<le> snd x" by auto
  from ne obtain y where "y \<in> set ?s" "?P y" by (metis filter_False)
  with mx xs have "?P x" by (cases x; cases y) auto
  with xs have h: "hd (filter ?P ?s) = x" by simp
  have "?s \<noteq> []" using xs by simp
  then have "d \<noteq> []" by (auto simp: sorted_items_def)
  then have "max_key ?s = Inr (fst (hd ?s))" by (rule max_key_sorted_items)
  with p h xs have 1: "max_key ?s = Inr p" by simp
  have "x \<in> set d" using xs by (metis list.set_intros(1) set_sort sorted_items_def)
  with \<open>?P x\<close> p h have "\<exists>v > 1. (p, v) \<in> set d" by (cases x) auto
  with 1 show ?thesis by simp
qed

text \<open>
  Claim C3. Whenever \<open>max(stats, key=stats.get)\<close> selects a pair from the statistics
  of \<open>get_stats\<close> (either variant), that pair has the highest count and is the one met
  first in the left-to-right scan among the pairs of that count. The same holds when the
  counting loop of \<open>get_stats\<close> runs over several chunks in order with one dictionary:
  the scan is then chunk by chunk, left to right in each. The selection is a function of
  the input, and it exists whenever the input has a pair at all.
\<close>

theorem tie_break_first_encountered:
  "(max_key (sorted_items (foldl (\<lambda>stats chunk. count_pairs stats (adjacent chunk)) [] chunks)) = Inr p
      \<or> max_key (filter (\<lambda>(k, v). v > 1)
            (sorted_items (foldl (\<lambda>stats chunk. count_pairs stats (adjacent chunk)) [] chunks))) = Inr p
    \<longrightarrow> first_most_frequent p (concat (map adjacent chunks)))
   \<and> (max_key (get_stats chars) = Inr cp \<or> max_key (get_stats_gt_1 chars) = Inr cp
    \<longrightarrow> first_most_frequent cp (adjacent chars))
   \<and> (adjacent chars \<noteq> [] \<longrightarrow> (\<exists>cp. max_key (get_stats chars) = Inr cp))"
proof (intro conjI impI)
  assume "max_key (sorted_items (foldl (\<lambda>stats chunk. count_pairs stats (adjacent chunk)) [] chunks)) = Inr p
      \<or> max_key (filter (\<lambda>(k, v). v > 1)
            (sorted_items (foldl (\<lambda>stats chunk. count_pairs stats (adjacent chunk)) [] chunks))) = Inr p"
  then have "max_key (sorted_items (count_pairs [] (concat (map adjacent chunks)))) = Inr p"
    unfolding foldl_count_pairs
    using max_key_filter_gt_1 [of "count_pairs [] (concat (map adjacent chunks))" p] by auto
  then show "first_most_frequent p (concat (map adjacent chunks))"
    by (rule selected_first_seen)
next
  assume "max_key (get_stats chars) = Inr cp \<or> max_key (get_stats_gt_1 chars) = Inr cp"
  then have "max_key (sorted_items (count_pairs [] (adjacent chars))) = Inr cp"
    unfolding get_stats_gt_1_def get_stats_def
    using max_key_filter_gt_1 [of "count_pairs [] (adjacent chars)" cp] by auto
  then show "first_most_frequent cp (adjacent chars)"
    by (rule selected_first_seen)
next
  assume "adjacent chars \<noteq> []"
  then have "fst ` set (count_pairs [] (adjacent chars)) \<noteq> {}"
    by (simp add: keys_count_pairs)
  then have "count_pairs [] (adjacent chars) \<noteq> []" by auto
  then show "\<exists>cp. max_key (get_stats chars) = Inr cp"
    by (simp add: get_stats_def max_key_sorted_items)
qed

theorem tie_break_first_encountered_witness:
  "max_key (get_stats [240, 159, 152, 132, 240, 159, 152, 132 :: nat]) = Inr (240, 159)
   \<and> first_most_frequent (240, 159) (adjacent [240, 159, 152, 132, 240, 159, 152, 132 :: nat])"
proof -
  have e: "max_key (get_stats [240, 159, 152, 132, 240, 159, 152, 132 :: nat]) = Inr (240, 159)"
    by code_simp
  with tie_break_first_encountered
    [of "[[240, 159, 152, 132, 240, 159, 152, 132 :: nat]]" "(240, 159)"
        "[240, 159, 152, 132, 240, 159, 152, 132 :: nat]" "(240, 159)"]
  show ?thesis by blast
qed

section \<open>The Segmenter: the category pattern of Part 4\<close>

text \<open>
  Part 4 splits a text with one regular expression before any merging:
  \<^verbatim>\<open>
  categories = re.compile(
    r"""'s|'t|'re|'ve|'m|'ll|'d| ?\p{L}+| ?\p{N}+| ?[^\s\p{L}\p{N}]+|\s+(?!\S)|\s+""")
  example_1 = re.findall(categories, "my dog. your dog.")
  \<close>
  The character classes \<open>\p{L}\<close>, \<open>\p{N}\<close> and \<open>\s\<close> are tables of the regular expression
  library, not of the repository: they are the parameter \<open>classes\<close>. A text is a list of
  characters.
\<close>

record classes =
  is_letter :: "char \<Rightarrow> bool"
  is_numeral :: "char \<Rightarrow> bool"
  is_space :: "char \<Rightarrow> bool"

text \<open>The class \<open>[^\s\p{L}\p{N}]\<close>.\<close>

definition is_other :: "classes \<Rightarrow> char \<Rightarrow> bool" where
  "is_other cls c \<longleftrightarrow> \<not> is_space cls c \<and> \<not> is_letter cls c \<and> \<not> is_numeral cls c"

text \<open>
  A matcher takes the rest of the text and returns the length of its match at the start
  of it, or \<open>None\<close>. The engine backtracks, and the match is the first one found:
  \<^item> a literal matches when the text starts with it, and alternatives are tried in order;
  \<^item> \<open>P+\<close> at the end of an alternative takes the longest run of \<open>P\<close>, at least one character;
  \<^item> \<open> ?\<close> first takes a space if there is one, and gives it back if the rest then fails;
  \<^item> \<open>\s+(?!\S)\<close> takes the longest run of whitespace and gives characters back, one at a
    time, until the next character is not a non-whitespace character (the end of the text,
    or whitespace).
\<close>

definition apostrophe :: char where
  "apostrophe = CHR 0x27"

definition contraction_suffixes :: "string list" where
  "contraction_suffixes =
     [apostrophe # ''s'', apostrophe # ''t'', apostrophe # ''re'', apostrophe # ''ve'',
      apostrophe # ''m'', apostrophe # ''ll'', apostrophe # ''d'']"

fun match_literals :: "string list \<Rightarrow> string \<Rightarrow> nat option" where
  "match_literals [] s = None"
| "match_literals (l # ls) s =
     (if take (length l) s = l then Some (length l) else match_literals ls s)"

definition match_run :: "(char \<Rightarrow> bool) \<Rightarrow> string \<Rightarrow> nat option" where
  "match_run P s = (let n = length (takeWhile P s) in if n = 0 then None else Some n)"

definition match_space_run :: "(char \<Rightarrow> bool) \<Rightarrow> string \<Rightarrow> nat option" where
  "match_space_run P s =
     (case s of
        [] \<Rightarrow> None
      | c # rest \<Rightarrow>
          if c = CHR '' '' then
            (case match_run P rest of Some n \<Rightarrow> Some (n + 1) | None \<Rightarrow> match_run P s)
          else match_run P s)"

definition match_space_lookahead :: "(char \<Rightarrow> bool) \<Rightarrow> string \<Rightarrow> nat option" where
  "match_space_lookahead S s =
     find (\<lambda>k. case drop k s of [] \<Rightarrow> True | c # _ \<Rightarrow> S c)
       (rev [1..<Suc (length (takeWhile S s))])"

definition categories :: "classes \<Rightarrow> (string \<Rightarrow> nat option) list" where
  "categories cls =
     [match_literals contraction_suffixes,
      match_space_run (is_letter cls),
      match_space_run (is_numeral cls),
      match_space_run (is_other cls),
      match_space_lookahead (is_space cls),
      match_run (is_space cls)]"

fun first_match :: "(string \<Rightarrow> nat option) list \<Rightarrow> string \<Rightarrow> nat option" where
  "first_match [] s = None"
| "first_match (m # ms) s = (case m s of Some n \<Rightarrow> Some n | None \<Rightarrow> first_match ms s)"

lemma match_literals_pos:
  "match_literals ls s = Some n \<Longrightarrow> [] \<notin> set ls \<Longrightarrow> 0 < n \<and> n \<le> length s \<and> take n s \<in> set ls"
proof (induction ls)
  case Nil
  then show ?case by simp
next
  case (Cons l ls)
  show ?case
  proof (cases "take (length l) s = l")
    case True
    then have "length (take (length l) s) = length l" by simp
    then have "length l \<le> length s" by simp
    with True Cons.prems show ?thesis by auto
  next
    case False
    with Cons show ?thesis by auto
  qed
qed

lemma take_takeWhile: "n \<le> length (takeWhile P s) \<Longrightarrow> set (take n s) \<subseteq> {c. P c}"
proof (induction s arbitrary: n)
  case Nil
  then show ?case by simp
next
  case (Cons a s)
  then show ?case by (cases n) (auto split: if_splits)
qed

lemma match_run_pos:
  assumes "match_run P s = Some n"
  shows "0 < n \<and> n \<le> length s \<and> (\<forall>c \<in> set (take n s). P c)"
proof -
  from assms have n: "n = length (takeWhile P s)" "0 < n"
    by (auto simp: match_run_def Let_def split: if_splits)
  have "n \<le> length s" unfolding n(1) by (rule length_takeWhile_le)
  moreover have "set (take n s) \<subseteq> {c. P c}" using n(1) by (intro take_takeWhile) simp
  ultimately show ?thesis using n(2) by auto
qed

lemma match_space_run_pos:
  assumes "match_space_run P s = Some n"
  shows "0 < n \<and> n \<le> length s
     \<and> ((\<forall>c \<in> set (take n s). P c)
        \<or> (\<exists>r. take n s = CHR '' '' # r \<and> r \<noteq> [] \<and> (\<forall>c \<in> set r. P c)))"
proof (cases s)
  case Nil
  with assms show ?thesis by (simp add: match_space_run_def)
next
  case (Cons c rest)
  show ?thesis
  proof (cases "c = CHR '' '' \<and> match_run P rest \<noteq> None")
    case True
    then obtain k where k: "match_run P rest = Some k" by auto
    with True Cons assms have n: "n = k + 1" by (simp add: match_space_run_def)
    from match_run_pos [OF k] have "0 < k" "k \<le> length rest" "\<forall>c \<in> set (take k rest). P c"
      by auto
    with n Cons True have "0 < n \<and> n \<le> length s
        \<and> take n s = CHR '' '' # take k rest \<and> take k rest \<noteq> [] \<and> (\<forall>c \<in> set (take k rest). P c)"
      by auto
    then show ?thesis by blast
  next
    case False
    with Cons assms have "match_run P s = Some n"
      by (auto simp: match_space_run_def split: if_splits option.splits)
    from match_run_pos [OF this] show ?thesis by blast
  qed
qed

lemma find_in_set: "find P xs = Some x \<Longrightarrow> x \<in> set xs \<and> P x"
  by (induction xs) (auto split: if_splits)

lemma match_space_lookahead_pos:
  assumes "match_space_lookahead S s = Some n"
  shows "0 < n \<and> n \<le> length s \<and> (\<forall>c \<in> set (take n s). S c)"
proof -
  from assms have "n \<in> set (rev [1..<Suc (length (takeWhile S s))])"
    unfolding match_space_lookahead_def by (rule find_in_set [THEN conjunct1])
  then have n: "0 < n" "n \<le> length (takeWhile S s)" by auto
  have "length (takeWhile S s) \<le> length s" by (rule length_takeWhile_le)
  with n have le: "n \<le> length s" by simp
  have "set (take n s) \<subseteq> {c. S c}" using n(2) by (rule take_takeWhile)
  with n le show ?thesis by auto
qed

text \<open>
  \<open>re.findall\<close> scans the text from left to right: where the pattern matches, the match
  is a chunk and the scan goes on behind it; where it does not match, the scan skips one
  character. Every alternative of \<open>categories\<close> takes at least one character
  (\<open>first_match_categories\<close> below), so the rules of \<open>findall\<close> for empty matches never apply.
\<close>

datatype category = Contraction | Letters | Numerals | Others | Whitespace

definition space_run :: "(char \<Rightarrow> bool) \<Rightarrow> string \<Rightarrow> bool" where
  "space_run P chunk \<longleftrightarrow>
     (case chunk of
        [] \<Rightarrow> False
      | c # r \<Rightarrow> list_all P chunk \<or> (c = CHR '' '' \<and> r \<noteq> [] \<and> list_all P r))"

fun in_category :: "classes \<Rightarrow> category \<Rightarrow> string \<Rightarrow> bool" where
  "in_category cls Contraction chunk = (chunk \<in> set contraction_suffixes)"
| "in_category cls Letters chunk = space_run (is_letter cls) chunk"
| "in_category cls Numerals chunk = space_run (is_numeral cls) chunk"
| "in_category cls Others chunk = space_run (is_other cls) chunk"
| "in_category cls Whitespace chunk = (chunk \<noteq> [] \<and> list_all (is_space cls) chunk)"

definition disjoint_classes :: "classes \<Rightarrow> bool" where
  "disjoint_classes cls \<longleftrightarrow>
     (\<forall>c. \<not> (is_letter cls c \<and> is_numeral cls c)
        \<and> \<not> (is_letter cls c \<and> is_space cls c)
        \<and> \<not> (is_numeral cls c \<and> is_space cls c))
     \<and> is_space cls (CHR '' '')
     \<and> is_other cls apostrophe
     \<and> list_all (is_letter cls) ''strevmld''"

definition ascii_classes :: classes where
  "ascii_classes =
     \<lparr>is_letter = (\<lambda>c. let n = of_char c :: nat in (65 \<le> n \<and> n \<le> 90) \<or> (97 \<le> n \<and> n \<le> 122)),
      is_numeral = (\<lambda>c. let n = of_char c :: nat in 48 \<le> n \<and> n \<le> 57),
      is_space = (\<lambda>c. let n = of_char c :: nat in n = 32 \<or> (9 \<le> n \<and> n \<le> 13))\<rparr>"

lemma space_run_take:
  assumes "0 < n" "n \<le> length s"
    and "(\<forall>c \<in> set (take n s). P c)
        \<or> (\<exists>r. take n s = CHR '' '' # r \<and> r \<noteq> [] \<and> (\<forall>c \<in> set r. P c))"
  shows "space_run P (take n s)"
proof -
  from assms(1,2) obtain c r where cr: "take n s = c # r"
    by (cases "take n s") auto
  with assms(3) show ?thesis
    by (auto simp: space_run_def list_all_iff)
qed

lemma first_match_categories:
  assumes "first_match (categories cls) s = Some n"
  shows "0 < n \<and> n \<le> length s \<and> (\<exists>cat. in_category cls cat (take n s))"
proof -
  consider
      (lit) "match_literals contraction_suffixes s = Some n"
    | (ltr) "match_space_run (is_letter cls) s = Some n"
    | (num) "match_space_run (is_numeral cls) s = Some n"
    | (oth) "match_space_run (is_other cls) s = Some n"
    | (look) "match_space_lookahead (is_space cls) s = Some n"
    | (ws) "match_run (is_space cls) s = Some n"
    using assms by (auto simp: categories_def split: option.splits)
  then show ?thesis
  proof cases
    case lit
    have "[] \<notin> set contraction_suffixes" by (simp add: contraction_suffixes_def)
    from match_literals_pos [OF lit this]
    have "0 < n \<and> n \<le> length s \<and> in_category cls Contraction (take n s)" by simp
    then show ?thesis by blast
  next
    case ltr
    from match_space_run_pos [OF this]
    have "0 < n \<and> n \<le> length s \<and> in_category cls Letters (take n s)"
      by (simp add: space_run_take)
    then show ?thesis by blast
  next
    case num
    from match_space_run_pos [OF this]
    have "0 < n \<and> n \<le> length s \<and> in_category cls Numerals (take n s)"
      by (simp add: space_run_take)
    then show ?thesis by blast
  next
    case oth
    from match_space_run_pos [OF this]
    have "0 < n \<and> n \<le> length s \<and> in_category cls Others (take n s)"
      by (simp add: space_run_take)
    then show ?thesis by blast
  next
    case look
    from match_space_lookahead_pos [OF this]
    have "0 < n \<and> n \<le> length s \<and> in_category cls Whitespace (take n s)"
      by (auto simp: list_all_iff)
    then show ?thesis by blast
  next
    case ws
    from match_run_pos [OF this]
    have "0 < n \<and> n \<le> length s \<and> in_category cls Whitespace (take n s)"
      by (auto simp: list_all_iff)
    then show ?thesis by blast
  qed
qed

function segment :: "classes \<Rightarrow> string \<Rightarrow> string list" where
  "segment cls s =
     (if s = [] then []
      else case first_match (categories cls) s of
             None \<Rightarrow> segment cls (tl s)
           | Some n \<Rightarrow> take n s # segment cls (drop n s))"
  by pat_completeness auto
termination
proof (relation "measure (\<lambda>(cls, s). length s)")
  fix cls :: classes and s :: string and n :: nat
  assume "s \<noteq> []" and "first_match (categories cls) s = Some n"
  then have "0 < n" using first_match_categories by blast
  with \<open>s \<noteq> []\<close> show "((cls, drop n s), (cls, s)) \<in> measure (\<lambda>(cls, s). length s)"
    by simp
qed auto

declare segment.simps [simp del]

lemma match_run_head: "P c \<Longrightarrow> match_run P (c # rest) \<noteq> None"
  by (simp add: match_run_def)

lemma match_space_run_head: "P c \<Longrightarrow> match_space_run P (c # rest) \<noteq> None"
  by (auto simp: match_space_run_def match_run_def split: option.splits)

lemma first_match_total: "s \<noteq> [] \<Longrightarrow> first_match (categories cls) s \<noteq> None"
proof -
  assume "s \<noteq> []"
  then obtain c rest where s: "s = c # rest" by (cases s) auto
  consider "is_space cls c" | "is_letter cls c" | "is_numeral cls c" | "is_other cls c"
    by (auto simp: is_other_def)
  then show ?thesis
  proof cases
    case 1
    then have "match_run (is_space cls) s \<noteq> None" unfolding s by (rule match_run_head)
    then show ?thesis by (auto simp: categories_def split: option.splits)
  next
    case 2
    then have "match_space_run (is_letter cls) s \<noteq> None" unfolding s by (rule match_space_run_head)
    then show ?thesis by (auto simp: categories_def split: option.splits)
  next
    case 3
    then have "match_space_run (is_numeral cls) s \<noteq> None" unfolding s by (rule match_space_run_head)
    then show ?thesis by (auto simp: categories_def split: option.splits)
  next
    case 4
    then have "match_space_run (is_other cls) s \<noteq> None" unfolding s by (rule match_space_run_head)
    then show ?thesis by (auto simp: categories_def split: option.splits)
  qed
qed

lemma concat_segment: "concat (segment cls s) = s"
proof (induction cls s rule: segment.induct)
  case (1 cls s)
  show ?case
  proof (cases "s = []")
    case True
    then show ?thesis by (simp add: segment.simps)
  next
    case False
    then obtain n where n: "first_match (categories cls) s = Some n"
      using first_match_total [of s cls] by auto
    with False "1.IH"(2) have "concat (segment cls (drop n s)) = drop n s" by simp
    with False n show ?thesis by (subst segment.simps) simp
  qed
qed

lemma segment_chunks:
  "chunk \<in> set (segment cls s) \<Longrightarrow> chunk \<noteq> [] \<and> (\<exists>cat. in_category cls cat chunk)"
proof (induction cls s rule: segment.induct)
  case (1 cls s)
  show ?case
  proof (cases "s = []")
    case True
    with "1.prems" show ?thesis by (simp add: segment.simps)
  next
    case False
    then obtain n where n: "first_match (categories cls) s = Some n"
      using first_match_total [of s cls] by auto
    from "1.prems" False n have "chunk = take n s \<or> chunk \<in> set (segment cls (drop n s))"
      by (subst (asm) segment.simps) simp
    then show ?thesis
    proof
      assume c: "chunk = take n s"
      from first_match_categories [OF n] False show ?thesis unfolding c by auto
    next
      assume "chunk \<in> set (segment cls (drop n s))"
      with False n "1.IH"(2) show ?thesis by simp
    qed
  qed
qed

lemma space_run_last:
  "space_run P chunk \<Longrightarrow> chunk \<noteq> [] \<and> P (last chunk) \<and> (P (hd chunk) \<or> hd chunk = CHR '' '')"
  by (cases chunk) (auto simp: space_run_def list_all_iff)

lemma contraction_last:
  assumes "chunk \<in> set contraction_suffixes" and "disjoint_classes cls"
  shows "chunk \<noteq> [] \<and> is_letter cls (last chunk) \<and> hd chunk = apostrophe"
proof -
  from assms(2) have "list_all (is_letter cls) ''strevmld''"
    by (simp add: disjoint_classes_def)
  then have l: "is_letter cls (CHR ''s'')" "is_letter cls (CHR ''t'')" "is_letter cls (CHR ''e'')"
    "is_letter cls (CHR ''m'')" "is_letter cls (CHR ''l'')" "is_letter cls (CHR ''d'')"
    by simp_all
  from assms(1) have "chunk = apostrophe # ''s'' \<or> chunk = apostrophe # ''t''
      \<or> chunk = apostrophe # ''re'' \<or> chunk = apostrophe # ''ve'' \<or> chunk = apostrophe # ''m''
      \<or> chunk = apostrophe # ''ll'' \<or> chunk = apostrophe # ''d''"
    by (simp add: contraction_suffixes_def)
  with l show ?thesis by (elim disjE) simp_all
qed

lemma apostrophe_not_space: "apostrophe \<noteq> CHR '' ''"
  by (simp add: apostrophe_def)

definition category_of :: "classes \<Rightarrow> string \<Rightarrow> category" where
  "category_of cls chunk =
     (if is_space cls (last chunk) then Whitespace
      else if is_numeral cls (last chunk) then Numerals
      else if is_other cls (last chunk) then Others
      else if hd chunk = apostrophe then Contraction
      else Letters)"

lemma category_of_eq:
  assumes d: "disjoint_classes cls" and a: "in_category cls cat chunk"
  shows "cat = category_of cls chunk"
proof -
  have dis: "\<not> (is_letter cls c \<and> is_numeral cls c)" "\<not> (is_letter cls c \<and> is_space cls c)"
    "\<not> (is_numeral cls c \<and> is_space cls c)" for c
    using d by (auto simp: disjoint_classes_def)
  have ap: "is_other cls apostrophe" using d by (simp add: disjoint_classes_def)
  have sp: "is_space cls (CHR '' '')" using d by (simp add: disjoint_classes_def)
  show ?thesis
  proof (cases cat)
    case Contraction
    with a contraction_last [OF _ d, of chunk]
    have "is_letter cls (last chunk)" "hd chunk = apostrophe" by simp_all
    with dis [of "last chunk"] Contraction show ?thesis
      by (simp add: category_of_def is_other_def)
  next
    case Letters
    with a space_run_last [of "is_letter cls" chunk]
    have l: "is_letter cls (last chunk)" and h: "is_letter cls (hd chunk) \<or> hd chunk = CHR '' ''"
      by simp_all
    from h ap sp dis [of apostrophe] have "hd chunk \<noteq> apostrophe"
      by (auto simp: is_other_def)
    with l dis [of "last chunk"] Letters show ?thesis
      by (simp add: category_of_def is_other_def)
  next
    case Numerals
    with a space_run_last [of "is_numeral cls" chunk]
    have "is_numeral cls (last chunk)" by simp
    with dis [of "last chunk"] Numerals show ?thesis
      by (auto simp: category_of_def)
  next
    case Others
    with a space_run_last [of "is_other cls" chunk]
    have "is_other cls (last chunk)" by simp
    with Others show ?thesis
      by (auto simp: category_of_def is_other_def)
  next
    case Whitespace
    with a have "chunk \<noteq> []" "list_all (is_space cls) chunk" by simp_all
    then have "is_space cls (last chunk)" by (simp add: list_all_iff)
    with Whitespace show ?thesis by (simp add: category_of_def)
  qed
qed

lemma category_unique:
  assumes "disjoint_classes cls" "in_category cls cat chunk" "in_category cls cat' chunk"
  shows "cat = cat'"
  using category_of_eq [OF assms(1,2)] category_of_eq [OF assms(1,3)] by simp

lemma disjoint_ascii: "disjoint_classes ascii_classes"
  by (simp add: disjoint_classes_def ascii_classes_def is_other_def apostrophe_def Let_def) arith

lemma segment_my_dog:
  "segment ascii_classes ''my dog. your dog.'' = [''my'', '' dog'', ''.'', '' your'', '' dog'', ''.'']"
  by code_simp

text \<open>
  Claim C7. For every text and every choice of the character classes, the chunks of
  \<open>segment\<close> are non-empty and, concatenated in order, give the text back: the chunks
  are a partition of the text without gap or overlap (the skipping branch of \<open>findall\<close>
  is never taken). Every chunk is in one of the five categories, and in exactly one
  when the classes are those of a character table: letters, numerals and whitespace
  pairwise disjoint, the space a whitespace character, the apostrophe in none of the
  three classes, and the letters of the contraction suffixes letters.
\<close>

theorem segment_partition:
  "concat (segment cls s) = s
   \<and> (\<forall>chunk \<in> set (segment cls s). chunk \<noteq> [] \<and> (\<exists>cat. in_category cls cat chunk))
   \<and> (disjoint_classes cls \<longrightarrow>
        (\<forall>chunk \<in> set (segment cls s). \<exists>!cat. in_category cls cat chunk))"
proof (intro conjI impI ballI)
  show "concat (segment cls s) = s" by (rule concat_segment)
next
  fix chunk assume "chunk \<in> set (segment cls s)"
  then show "chunk \<noteq> []" "\<exists>cat. in_category cls cat chunk"
    using segment_chunks by blast+
next
  fix chunk assume d: "disjoint_classes cls" and c: "chunk \<in> set (segment cls s)"
  from segment_chunks [OF c] obtain cat where "in_category cls cat chunk" by blast
  then show "\<exists>!cat. in_category cls cat chunk"
    using category_unique [OF d] by blast
qed

theorem segment_partition_witness:
  "segment ascii_classes ''my dog. your dog.'' = [''my'', '' dog'', ''.'', '' your'', '' dog'', ''.'']
   \<and> concat [''my'', '' dog'', ''.'', '' your'', '' dog'', ''.''] = ''my dog. your dog.''
   \<and> (\<exists>!cat. in_category ascii_classes cat '' dog'')
   \<and> (\<exists>!cat. in_category ascii_classes cat ''.'')"
  using segment_partition [of ascii_classes "''my dog. your dog.''"] disjoint_ascii
  by (simp add: segment_my_dog)

section \<open>The loop of Part 4 on a whole text\<close>

text \<open>
  \<open>list(text)\<close>: the list of the one-character strings of a text, the start of the loop of
  Part 4 (\<open>tokens = list(text)\<close>).
\<close>

definition chars_of :: "'c list \<Rightarrow> 'c list list" where
  "chars_of s = map (\<lambda>c. [c]) s"

lemma concat_chars_of [simp]: "concat (chars_of s) = s"
  by (induction s) (simp_all add: chars_of_def)

text \<open>
  The first example of Part 4 runs the loop on the whole text \<open>my dog. your dog.\<close> with
  \<open>num_merges = 4\<close>; the text is not cut into chunks. The fourth merge joins \<open>dog\<close> and the
  full stop, and the notebook prints
  \<^verbatim>\<open>['m', 'y', ' dog.', ' ', 'y', 'o', 'u', 'r', ' dog.']\<close>.
  The category pattern is what Part 4 brings in against such merges; the notebook
  applies the pattern to texts and stops there, it does not run the loop on the chunks.
\<close>

lemma merge_loop_my_dog:
  "merge_loop 4 (chars_of ''my dog. your dog.'')
     = Inr [''m'', ''y'', '' dog.'', '' '', ''y'', ''o'', ''u'', ''r'', '' dog.'']"
  by code_simp

section \<open>The worked example of Part 3\<close>

text \<open>
  Part 3 trains by hand on the characters of \<open>ababcabcd\<close>, with \<open>str.replace\<close> for the
  merge and a new character for the new symbol:
  \<^verbatim>\<open>
  text = 'ababcabcd'
  stats = get_stats(text)
  text_1 = text.replace('ab', 'X')
  stats = get_stats(text_1)
  text_2 = text_1.replace('Xc', 'Y')
  tokens = list(sorted(set(text + text_1 + text_2)))
  stats = get_stats(text_2)
  \<close>
  \<open>s.replace(old, new)\<close> replaces the occurrences of \<open>old\<close> in \<open>s\<close> from left to right,
  without overlap; for an empty \<open>old\<close> it puts \<open>new\<close> before every character and at the
  end. The variable \<open>text\<close> is \<open>text_0\<close> here, and \<open>tokens_2\<close> is what \<open>tokens\<close> holds after
  the second merge. Characters are ordered by their code, as Python orders them.
\<close>

function str_replace :: "string \<Rightarrow> string \<Rightarrow> string \<Rightarrow> string" where
  "str_replace s old new =
     (if old = [] then new @ concat (map (\<lambda>c. c # new) s)
      else if s = [] then []
      else if take (length old) s = old then new @ str_replace (drop (length old) s) old new
      else hd s # str_replace (tl s) old new)"
  by pat_completeness auto
termination
  by (relation "measure (\<lambda>(s, old, new). length s)") auto

declare str_replace.simps [simp del]

definition text_0 :: string where
  "text_0 = ''ababcabcd''"

definition text_1 :: string where
  "text_1 = str_replace text_0 ''ab'' ''X''"

definition text_2 :: string where
  "text_2 = str_replace text_1 ''Xc'' ''Y''"

definition tokens_2 :: string where
  "tokens_2 = sort (remdups (text_0 @ text_1 @ text_2))"


lemma set_count_pairs:
  "set (count_pairs [] ps) = (\<lambda>k. (k, count_list ps k)) ` set ps"
proof (intro set_eqI iffI)
  fix x assume x: "x \<in> set (count_pairs [] ps)"
  then have "fst x \<in> fst ` set (count_pairs [] ps)" by simp
  then have k: "fst x \<in> set ps" by (simp add: keys_count_pairs)
  from x have "snd x = count_list ps (fst x)"
    using count_pairs_value [of "fst x" "snd x" ps] by simp
  with k show "x \<in> (\<lambda>k. (k, count_list ps k)) ` set ps"
    by (metis (mono_tags, lifting) image_eqI prod.collapse)
next
  fix x assume "x \<in> (\<lambda>k. (k, count_list ps k)) ` set ps"
  then obtain k where k: "k \<in> set ps" "x = (k, count_list ps k)" by auto
  then have "k \<in> fst ` set (count_pairs [] ps)" by (simp add: keys_count_pairs)
  then obtain v where v: "(k, v) \<in> set (count_pairs [] ps)" by auto
  from count_pairs_value [OF v] v k show "x \<in> set (count_pairs [] ps)" by simp
qed

lemma get_stats_gt_1_empty:
  "get_stats_gt_1 xs = [] \<longleftrightarrow> (\<forall>p \<in> set (adjacent xs). count_list (adjacent xs) p \<le> 1)"
  by (auto simp: get_stats_gt_1_def get_stats_def sorted_items_def filter_empty_conv
      set_count_pairs not_less)

text \<open>
  The cells of Part 3 are run by hand, and the notebook ends them with: "there is no
  benefit to merging pairs that have a frequency of 1. So, I stop the process." The two
  merges are \<open>(a, b)\<close> and then \<open>(X, c)\<close>, the text ends as the four symbols \<open>X Y Y d\<close>, there
  are six tokens, and no pair is left that occurs more than once.
\<close>

lemma part_3_cells:
  "max_key (get_stats text_0) = Inr (CHR ''a'', CHR ''b'')"
  "text_1 = ''XXcXcd''"
  "max_key (get_stats text_1) = Inr (CHR ''X'', CHR ''c'')"
  "text_2 = ''XYYd''"
  "tokens_2 = ''XYabcd''"
  "get_stats_gt_1 text_2 = []"
  by code_simp+

lemma part_3_sizes: "length text_2 = 4" "length tokens_2 = 6"
  by (simp_all add: part_3_cells)

text \<open>
  The loop of Part 4 does the same merges, by \<open>max\<close> on the pairs that occur more than
  once. A round with such a pair merges it, and the token list gets shorter. The loop
  has no test for the state in which no pair occurs more than once: \<open>get_stats\<close> returns
  the empty dictionary there, \<open>max\<close> of an empty dictionary raises \<open>ValueError\<close>, and the
  loop is left by the exception, with no tokens returned.
\<close>

lemma merge_loop_step:
  assumes "get_stats_gt_1 toks \<noteq> []"
  shows "\<exists>pair toks'. max_key (get_stats_gt_1 toks) = Inr pair
      \<and> 1 < count_list (adjacent toks) pair
      \<and> replace_pairs_str toks pair = Inr toks'
      \<and> length toks' < length toks
      \<and> merge_loop (Suc n) toks = merge_loop n toks'"
proof -
  from assms obtain pair where p: "max_key (get_stats_gt_1 toks) = Inr pair"
    by (cases "get_stats_gt_1 toks") auto
  then have "\<exists>v > 1. (pair, v) \<in> set (count_pairs [] (adjacent toks))"
    unfolding get_stats_gt_1_def get_stats_def by (rule max_key_filter_gt_1 [THEN conjunct2])
  then have c: "pair \<in> set (adjacent toks)" "1 < count_list (adjacent toks) pair"
    by (auto simp: set_count_pairs)
  define toks' where "toks' = merge_scan pair (fst pair @ snd pair) toks"
  have r: "replace_pairs_str toks pair = Inr toks'"
    by (simp add: replace_pairs_str_scan toks'_def)
  have "length toks' < length toks"
    unfolding toks'_def using c(1) by (rule length_merge_scan_less)
  with p c r show ?thesis by auto
qed

lemma merge_loop_no_pair:
  "get_stats_gt_1 toks = [] \<Longrightarrow> merge_loop (Suc n) toks = Inl ValueError"
  by simp

text \<open>
  Claim C2 says that training stops when no adjacent pair has a count above one, and that
  on \<open>ababcabcd\<close> there is no third merge and training ends with the four symbols. The
  loop of Part 4 on the characters of \<open>ababcabcd\<close> makes the two merges of the claim in two
  rounds and returns four tokens, among which no pair occurs more than once. With a
  third round asked for, which is a target of seven tokens, the loop does not end with
  these four tokens: it raises \<open>ValueError\<close>.
\<close>

theorem merge_loop_raises_at_stop:
  "merge_loop 2 (chars_of ''ababcabcd'') = Inr [''ab'', ''abc'', ''abc'', ''d'']
   \<and> get_stats_gt_1 [''ab'', ''abc'', ''abc'', ''d''] = []
   \<and> merge_loop 3 (chars_of ''ababcabcd'') = Inl ValueError"
proof -
  have "merge_loop 2 (chars_of ''ababcabcd'') = Inr [''ab'', ''abc'', ''abc'', ''d'']"
    by code_simp
  moreover have "get_stats_gt_1 [''ab'', ''abc'', ''abc'', ''d''] = []"
    by code_simp
  moreover have "merge_loop 3 (chars_of ''ababcabcd'') = Inl ValueError"
    by code_simp
  ultimately show ?thesis by blast
qed

section \<open>The trainer, the encoder and the decoder of the specification\<close>

text \<open>
  The notebooks stop at the merge loop on one token list: they keep no table from symbol
  to bytes, and they have no function that trains on chunks up to a target size, none
  that encodes a new text with learned merges and none that decodes. The definitions of
  this section follow sections 3, 4 and 6 of the specification for those parts, on top of
  \<open>replace_pairs\<close>, the counting loop of \<open>get_stats\<close>, \<open>max\<close> and \<open>segment\<close> from the source.

  A symbol is a natural number: 0 to 255 are the bytes, and the symbol of the merge of
  rank \<open>k\<close> is \<open>256 + k\<close>. A byte of the text is a \<open>char\<close>.
\<close>

type_synonym symbol = nat

text \<open>
  Modelled from the spec: the Vocabulary (section 3), a mapping from Symbol to byte sequence,
  absent from the source. It is a dictionary in insertion order; its size is its length.
\<close>

type_synonym vocabulary = "(symbol \<times> string) list"

text \<open>
  Modelled from the spec: the ordered MergeRule list (sections 3 and 6), absent from the
  source as an ordered table. The position of a pair is its rank, and the symbol made for
  it is 256 plus the rank.
\<close>

type_synonym merge_table = "(symbol \<times> symbol) list"

text \<open>
  Modelled from the spec: the state of MergeTrainer (section 4.3): the chunks as symbol
  sequences, the Vocabulary and the merge table built so far.
\<close>

record trainer =
  chunk_symbols :: "symbol list list"
  vocabulary :: vocabulary
  merge_rules :: merge_table

text \<open>
  Modelled from the spec: looking a Symbol up in the Vocabulary; a symbol that is not
  there is the \<open>UnknownTokenError\<close> of section 6.
\<close>

definition vocab_lookup :: "vocabulary \<Rightarrow> symbol \<Rightarrow> error + string" where
  "vocab_lookup vocab s =
     (case map_of vocab s of None \<Rightarrow> Inl UnknownTokenError | Some bytes \<Rightarrow> Inr bytes)"

text \<open>
  Modelled from the spec: the Vocabulary before training, the 256 byte values each
  expanding to itself (section 3: IDs 0 to 255 are reserved for raw byte values).
\<close>

definition initial_vocabulary :: vocabulary where
  "initial_vocabulary = map (\<lambda>b. (b, [char_of b])) [0..<256]"

text \<open>
  Modelled from the spec: PairCounter (section 4.2) over several chunks: the counting
  loop of \<open>get_stats\<close> run over the chunks in order with one dictionary, so that a pair is
  counted only inside a chunk, then sorted as \<open>get_stats\<close> sorts.
\<close>

definition pair_counter :: "'a list list \<Rightarrow> (('a \<times> 'a) \<times> nat) list" where
  "pair_counter chunks =
     sorted_items (foldl (\<lambda>stats chunk. count_pairs stats (adjacent chunk)) [] chunks)"

text \<open>
  Modelled from the spec: step (3) of MergeTrainer, "rewrite every chunk by replacing each
  non-overlapping left-to-right occurrence of the chosen Pair with the new Symbol", with
  \<open>replace_pairs\<close> of the source on each chunk.
\<close>

fun rewrite_chunks :: "symbol list list \<Rightarrow> symbol \<times> symbol \<Rightarrow> symbol \<Rightarrow> error + symbol list list" where
  "rewrite_chunks [] pair idx = Inr []"
| "rewrite_chunks (c # cs) pair idx =
     (case replace_pairs c pair idx of
        Inl e \<Rightarrow> Inl e
      | Inr c' \<Rightarrow>
          (case rewrite_chunks cs pair idx of
             Inl e \<Rightarrow> Inl e
           | Inr cs' \<Rightarrow> Inr (c' # cs')))"

text \<open>
  Modelled from the spec: steps (3) and (4) of MergeTrainer for a selected pair: allocate
  the next Symbol ID, record the MergeRule, rewrite every chunk, and give the new symbol
  the concatenation of the expansions of the two symbols of the pair.
\<close>

definition merge_step :: "trainer \<Rightarrow> symbol \<times> symbol \<Rightarrow> error + trainer" where
  "merge_step st pair =
     (let idx = 256 + length (merge_rules st) in
      case rewrite_chunks (chunk_symbols st) pair idx of
        Inl e \<Rightarrow> Inl e
      | Inr cs \<Rightarrow>
          (case vocab_lookup (vocabulary st) (fst pair) of
             Inl e \<Rightarrow> Inl e
           | Inr left \<Rightarrow>
               (case vocab_lookup (vocabulary st) (snd pair) of
                  Inl e \<Rightarrow> Inl e
                | Inr right \<Rightarrow>
                    Inr \<lparr>chunk_symbols = cs,
                         vocabulary = vocabulary st @ [(idx, left @ right)],
                         merge_rules = merge_rules st @ [pair]\<rparr>)))"

lemma merge_step_size:
  "merge_step st pair = Inr st' \<Longrightarrow> length (vocabulary st') = Suc (length (vocabulary st))"
  by (auto simp: merge_step_def Let_def split: sum.splits)

text \<open>
  Modelled from the spec: the loop of MergeTrainer (section 4.3): "(1) compute pair counts
  over all chunks via PairCounter; (2) if no pair has count > 1, or vocabulary size has
  reached the target, stop; (3) otherwise select the highest-count pair, allocate the next
  Symbol ID, record a MergeRule, rewrite every chunk; (4) update Vocabulary; repeat." The
  selection is \<open>max\<close> on the pairs of count above one, as in the loop of Part 4.
\<close>

function train_loop :: "nat \<Rightarrow> trainer \<Rightarrow> error + trainer" where
  "train_loop target st =
     (let stats = filter (\<lambda>(k, v). v > 1) (pair_counter (chunk_symbols st)) in
      if stats = [] \<or> target \<le> length (vocabulary st) then Inr st
      else
        (case max_key stats of
           Inl e \<Rightarrow> Inl e
         | Inr pair \<Rightarrow>
             (case merge_step st pair of
                Inl e \<Rightarrow> Inl e
              | Inr st' \<Rightarrow> train_loop target st')))"
  by pat_completeness auto
termination
  by (relation "measure (\<lambda>(target, st). target - length (vocabulary st))")
     (auto dest: merge_step_size)

declare train_loop.simps [simp del]

text \<open>
  Modelled from the spec: the training entry point (section 6),
  \<open>train(corpus, target_vocab_size)\<close>, which fails with \<open>ConfigurationError\<close> for a target
  below 256, segments the corpus, starts from the raw bytes of every chunk and returns the
  Vocabulary and the ordered merge list.
\<close>

definition train :: "classes \<Rightarrow> string \<Rightarrow> nat \<Rightarrow> error + vocabulary \<times> merge_table" where
  "train cls corpus target =
     (if target < 256 then Inl ConfigurationError
      else
        (case train_loop target
                \<lparr>chunk_symbols = map (map of_char) (segment cls corpus),
                 vocabulary = initial_vocabulary,
                 merge_rules = []\<rparr> of
           Inl e \<Rightarrow> Inl e
         | Inr st \<Rightarrow> Inr (vocabulary st, merge_rules st)))"

text \<open>
  Modelled from the spec: the merge rank of a pair (section 3): its position in the
  ordered merge list, if it has a rule.
\<close>

fun rank_of :: "merge_table \<Rightarrow> symbol \<times> symbol \<Rightarrow> nat option" where
  "rank_of [] p = None"
| "rank_of (q # qs) p = (if q = p then Some 0 else map_option Suc (rank_of qs p))"

text \<open>
  Modelled from the spec: the choice of the Encoder (section 4.4): "find, among all
  adjacent pairs currently present, the one with the lowest merge rank". The result is
  the rank and the pair, or \<open>None\<close> when no pair present has a rule.
\<close>

fun lowest_rank :: "merge_table \<Rightarrow> (symbol \<times> symbol) list \<Rightarrow> (nat \<times> (symbol \<times> symbol)) option" where
  "lowest_rank mt [] = None"
| "lowest_rank mt (p # ps) =
     (case rank_of mt p of
        None \<Rightarrow> lowest_rank mt ps
      | Some k \<Rightarrow>
          (case lowest_rank mt ps of
             None \<Rightarrow> Some (k, p)
           | Some (k', p') \<Rightarrow> if k \<le> k' then Some (k, p) else Some (k', p')))"

lemma lowest_rank_present: "lowest_rank mt ps = Some (k, p) \<Longrightarrow> p \<in> set ps \<and> rank_of mt p = Some k"
  by (induction ps arbitrary: k p) (auto split: option.splits if_splits)

text \<open>
  Modelled from the spec: the Encoder on one chunk (section 4.4): "repeatedly find, among
  all adjacent pairs currently present, the one with the lowest merge rank and apply it;
  continue until no present pair has any corresponding MergeRule, or only one symbol
  remains in the chunk." Applying a rule is \<open>replace_pairs\<close> with the symbol of the rule.
\<close>

function encode_chunk :: "merge_table \<Rightarrow> symbol list \<Rightarrow> error + symbol list" where
  "encode_chunk mt symbols =
     (if length symbols < 2 then Inr symbols
      else
        (case lowest_rank mt (adjacent symbols) of
           None \<Rightarrow> Inr symbols
         | Some (k, pair) \<Rightarrow>
             (case replace_pairs symbols pair (256 + k) of
                Inl e \<Rightarrow> Inl e
              | Inr symbols' \<Rightarrow> encode_chunk mt symbols')))"
  by pat_completeness auto
termination
proof (relation "measure (\<lambda>(mt, symbols). length symbols)")
  fix mt :: merge_table and symbols symbols' :: "symbol list" and x k pair
  assume "lowest_rank mt (adjacent symbols) = Some x" and "(k, pair) = x"
    and r: "replace_pairs symbols pair (256 + k) = Inr symbols'"
  then have "pair \<in> set (adjacent symbols)" using lowest_rank_present by metis
  then have "length (merge_scan pair (256 + k) symbols) < length symbols"
    by (rule length_merge_scan_less)
  with r show "((mt, symbols'), (mt, symbols)) \<in> measure (\<lambda>(mt, symbols). length symbols)"
    by (simp add: replace_pairs_scan)
qed simp

declare encode_chunk.simps [simp del]

text \<open>
  Modelled from the spec: the encode entry point (section 6),
  \<open>encode(text, vocabulary, merges)\<close>: "segment text with Segmenter (same rules as
  training); within each chunk, initialize symbols as raw bytes" and encode the chunk;
  "concatenate resulting chunk symbol sequences in original order."
\<close>

fun encode_chunks :: "merge_table \<Rightarrow> string list \<Rightarrow> error + symbol list" where
  "encode_chunks mt [] = Inr []"
| "encode_chunks mt (chunk # rest) =
     (case encode_chunk mt (map of_char chunk) of
        Inl e \<Rightarrow> Inl e
      | Inr symbols \<Rightarrow>
          (case encode_chunks mt rest of
             Inl e \<Rightarrow> Inl e
           | Inr others \<Rightarrow> Inr (symbols @ others)))"

definition encode :: "classes \<Rightarrow> string \<Rightarrow> vocabulary \<Rightarrow> merge_table \<Rightarrow> error + symbol list" where
  "encode cls txt vocab mt = encode_chunks mt (segment cls txt)"

text \<open>
  Modelled from the spec: the decode entry point (sections 4.5 and 6): "replace each Symbol
  with its stored byte-sequence expansion and concatenate in order"; it "fails with an
  UnknownTokenError if any token ID is absent from the vocabulary".
\<close>

fun decode :: "symbol list \<Rightarrow> vocabulary \<Rightarrow> error + string" where
  "decode [] vocab = Inr []"
| "decode (s # ss) vocab =
     (case vocab_lookup vocab s of
        Inl e \<Rightarrow> Inl e
      | Inr bytes \<Rightarrow>
          (case decode ss vocab of
             Inl e \<Rightarrow> Inl e
           | Inr rest \<Rightarrow> Inr (bytes @ rest)))"

text \<open>
  The invariant of a Vocabulary and a merge table: the symbols of the Vocabulary are
  exactly 0 up to 255 plus the number of rules, every byte expands to itself, and the
  symbol of every rule expands to the expansion of the left symbol followed by that of
  the right one. \<open>trainer_inv\<close> adds that the chunks hold known symbols only.
\<close>

definition consistent :: "vocabulary \<Rightarrow> merge_table \<Rightarrow> bool" where
  "consistent vocab mt \<longleftrightarrow>
     map fst vocab = [0..<256 + length mt]
     \<and> (\<forall>b < 256. map_of vocab b = Some [char_of b])
     \<and> (\<forall>i < length mt. \<exists>l r.
           map_of vocab (fst (mt ! i)) = Some l
           \<and> map_of vocab (snd (mt ! i)) = Some r
           \<and> map_of vocab (256 + i) = Some (l @ r))"

definition trainer_inv :: "trainer \<Rightarrow> bool" where
  "trainer_inv st \<longleftrightarrow>
     consistent (vocabulary st) (merge_rules st)
     \<and> (\<forall>c \<in> set (chunk_symbols st). \<forall>s \<in> set c. s < 256 + length (merge_rules st))"

text \<open>
  The invariant of the trainer on the chunks of its corpus: the symbols of every chunk
  expand to that chunk, in the order of the chunks, and the expansion of the symbol of
  every rule is a contiguous piece of one chunk.
\<close>

definition chunks_inv :: "string list \<Rightarrow> trainer \<Rightarrow> bool" where
  "chunks_inv chunks st \<longleftrightarrow>
     trainer_inv st
     \<and> list_all2 (\<lambda>c syms. decode syms (vocabulary st) = Inr c) chunks (chunk_symbols st)
     \<and> (\<forall>i < length (merge_rules st). \<exists>bs.
           map_of (vocabulary st) (256 + i) = Some bs \<and> (\<exists>c \<in> set chunks. sublist bs c))"

text \<open>
  The chunks of \<open>my dog. your dog.\<close> as byte values: the chunk symbols of the trainer
  before the first merge on this corpus.
\<close>

definition my_dog_symbols :: "symbol list list" where
  "my_dog_symbols = [[109, 121], [32, 100, 111, 103], [46], [32, 121, 111, 117, 114],
     [32, 100, 111, 103], [46]]"

lemma rewrite_chunks_scan: "rewrite_chunks cs pair idx = Inr (map (merge_scan pair idx) cs)"
  by (induction cs) (simp_all add: replace_pairs_scan)

lemma set_merge_scan: "set (merge_scan pair idx xs) \<subseteq> insert idx (set xs)"
  by (induction pair idx xs rule: merge_scan.induct) auto

lemma adjacent_mem: "(a, b) \<in> set (adjacent xs) \<Longrightarrow> a \<in> set xs \<and> b \<in> set xs"
  unfolding adjacent_zip by (cases xs) (auto dest: set_zip_leftD set_zip_rightD)

lemma map_of_tabulate:
  "map_of (map (\<lambda>b. (b, f b)) xs) k = (if k \<in> set xs then Some (f k) else None)"
  by (induction xs) auto

lemma consistent_initial: "consistent initial_vocabulary []"
  by (simp add: consistent_def initial_vocabulary_def map_of_tabulate comp_def)

lemma map_of_known:
  assumes "map fst vocab = [0..<n]" and "s < n"
  shows "\<exists>bytes. map_of vocab s = Some bytes"
proof -
  from assms have "s \<in> set (map fst vocab)" by simp
  then have "s \<in> dom (map_of vocab)" by (simp add: dom_map_of_conv_image_fst)
  then show ?thesis by auto
qed

lemma map_of_snoc_old:
  "map_of vocab s = Some bytes \<Longrightarrow> map_of (vocab @ [(k, v)]) s = Some bytes"
  by (simp add: map_add_Some_iff)

lemma map_of_snoc_new:
  assumes "map fst vocab = [0..<n]"
  shows "map_of (vocab @ [(n, v)]) n = Some v"
proof -
  from assms have "n \<notin> set (map fst vocab)" by simp
  then have "map_of vocab n = None" by (simp add: map_of_eq_None_iff)
  then show ?thesis by (simp add: map_add_Some_iff)
qed

lemma merge_step_inv:
  assumes inv: "trainer_inv st"
    and pair: "pair \<in> set (concat (map adjacent (chunk_symbols st)))"
  shows "\<exists>st' l r. merge_step st pair = Inr st'
      \<and> trainer_inv st'
      \<and> merge_rules st' = merge_rules st @ [pair]
      \<and> chunk_symbols st' = map (merge_scan pair (256 + length (merge_rules st))) (chunk_symbols st)
      \<and> map_of (vocabulary st) (fst pair) = Some l
      \<and> map_of (vocabulary st) (snd pair) = Some r
      \<and> vocabulary st' = vocabulary st @ [(256 + length (merge_rules st), l @ r)]"
proof -
  let ?n = "256 + length (merge_rules st)"
  let ?v = "vocabulary st"
  from inv have keys: "map fst ?v = [0..<?n]"
    and base: "\<forall>b < 256. map_of ?v b = Some [char_of b]"
    and rules: "\<forall>i < length (merge_rules st). \<exists>l r.
           map_of ?v (fst (merge_rules st ! i)) = Some l
           \<and> map_of ?v (snd (merge_rules st ! i)) = Some r
           \<and> map_of ?v (256 + i) = Some (l @ r)"
    and range: "\<forall>c \<in> set (chunk_symbols st). \<forall>s \<in> set c. s < ?n"
    unfolding trainer_inv_def consistent_def by blast+
  from pair obtain c where c: "c \<in> set (chunk_symbols st)" "pair \<in> set (adjacent c)" by auto
  then have "fst pair \<in> set c \<and> snd pair \<in> set c"
    using adjacent_mem [of "fst pair" "snd pair" c] by simp
  with range c(1) have lt: "fst pair < ?n" "snd pair < ?n" by auto
  from map_of_known [OF keys lt(1)] obtain l where l: "map_of ?v (fst pair) = Some l" ..
  from map_of_known [OF keys lt(2)] obtain r where r: "map_of ?v (snd pair) = Some r" ..
  define st' where "st' = \<lparr>chunk_symbols = map (merge_scan pair ?n) (chunk_symbols st),
      vocabulary = ?v @ [(?n, l @ r)], merge_rules = merge_rules st @ [pair]\<rparr>"
  have step: "merge_step st pair = Inr st'"
    by (simp add: merge_step_def Let_def rewrite_chunks_scan vocab_lookup_def l r st'_def)
  have new: "map_of (?v @ [(?n, l @ r)]) ?n = Some (l @ r)"
    using keys by (rule map_of_snoc_new)
  have k': "map fst (vocabulary st') = [0..<256 + length (merge_rules st')]"
  proof -
    have "map fst (vocabulary st') = map fst ?v @ [?n]" by (simp add: st'_def)
    also have "\<dots> = [0..<?n] @ [?n]" by (simp only: keys)
    also have "\<dots> = [0..<Suc ?n]" by (rule upt_Suc_append [symmetric]) simp
    also have "Suc ?n = 256 + length (merge_rules st')" by (simp add: st'_def)
    finally show ?thesis .
  qed
  have b': "\<forall>b < 256. map_of (vocabulary st') b = Some [char_of b]"
    using base by (simp add: st'_def map_add_Some_iff)
  have r': "\<exists>l' r'. map_of (vocabulary st') (fst (merge_rules st' ! i)) = Some l'
           \<and> map_of (vocabulary st') (snd (merge_rules st' ! i)) = Some r'
           \<and> map_of (vocabulary st') (256 + i) = Some (l' @ r')"
    if "i < length (merge_rules st')" for i
  proof (cases "i < length (merge_rules st)")
    case True
    with rules obtain l' r' where
      "map_of ?v (fst (merge_rules st ! i)) = Some l'"
      "map_of ?v (snd (merge_rules st ! i)) = Some r'"
      "map_of ?v (256 + i) = Some (l' @ r')"
      by blast
    with True have "map_of (vocabulary st') (fst (merge_rules st' ! i)) = Some l'
           \<and> map_of (vocabulary st') (snd (merge_rules st' ! i)) = Some r'
           \<and> map_of (vocabulary st') (256 + i) = Some (l' @ r')"
      by (simp add: st'_def nth_append map_of_snoc_old del: map_of_append)
    then show ?thesis by blast
  next
    case False
    with that have i: "i = length (merge_rules st)" by (simp add: st'_def)
    from l r new have "map_of (vocabulary st') (fst (merge_rules st' ! i)) = Some l
           \<and> map_of (vocabulary st') (snd (merge_rules st' ! i)) = Some r
           \<and> map_of (vocabulary st') (256 + i) = Some (l @ r)"
      unfolding i by (simp add: st'_def map_of_snoc_old del: map_of_append)
    then show ?thesis by blast
  qed
  have s': "\<forall>c \<in> set (chunk_symbols st'). \<forall>s \<in> set c. s < 256 + length (merge_rules st')"
  proof (intro ballI)
    fix c s assume "c \<in> set (chunk_symbols st')" and s: "s \<in> set c"
    then obtain c0 where c0: "c0 \<in> set (chunk_symbols st)" "c = merge_scan pair ?n c0"
      by (auto simp: st'_def)
    with s set_merge_scan [of pair ?n c0] have "s = ?n \<or> s \<in> set c0" by auto
    moreover have "s < ?n" if "s \<in> set c0" using range c0(1) that by blast
    ultimately have "s < Suc ?n" by auto
    then show "s < 256 + length (merge_rules st')" by (simp add: st'_def)
  qed
  from k' b' r' s' have "trainer_inv st'"
    by (simp add: trainer_inv_def consistent_def)
  with step l r show ?thesis by (auto simp: st'_def)
qed

lemma selected_in_chunk:
  assumes "max_key (filter (\<lambda>(k, v). v > 1) (pair_counter cs)) = Inr pair"
  shows "pair \<in> set (concat (map adjacent cs))"
proof -
  from assms have "\<exists>v > 1. (pair, v) \<in> set (count_pairs [] (concat (map adjacent cs)))"
    unfolding pair_counter_def foldl_count_pairs by (rule max_key_filter_gt_1 [THEN conjunct2])
  then show ?thesis by (auto simp: set_count_pairs)
qed

lemma train_loop_inv:
  "trainer_inv st \<Longrightarrow> \<exists>st'. train_loop target st = Inr st' \<and> trainer_inv st'"
proof (induction target st rule: train_loop.induct)
  case (1 target st)
  let ?stats = "filter (\<lambda>(k, v). v > 1) (pair_counter (chunk_symbols st))"
  show ?case
  proof (cases "?stats = [] \<or> target \<le> length (vocabulary st)")
    case True
    then have "train_loop target st = Inr st"
      by (subst train_loop.simps) (simp add: Let_def)
    with "1.prems" show ?thesis by simp
  next
    case False
    then obtain pair where p: "max_key ?stats = Inr pair"
      by (cases ?stats) auto
    from selected_in_chunk [OF p] merge_step_inv [OF "1.prems"]
    obtain st' where s: "merge_step st pair = Inr st'" "trainer_inv st'" by blast
    from "1.IH" [OF refl False p s(1) s(2)]
    obtain st'' where "train_loop target st' = Inr st''" "trainer_inv st''" by blast
    moreover from False p s(1) have "train_loop target st = train_loop target st'"
      by (subst train_loop.simps) (simp add: Let_def)
    ultimately show ?thesis by simp
  qed
qed

lemma trainer_inv_initial:
  "trainer_inv \<lparr>chunk_symbols = map (map of_char) chunks,
      vocabulary = initial_vocabulary, merge_rules = []\<rparr>"
proof -
  have "of_char c < (256 :: nat)" for c :: char
    by (metis of_char_mod_256 mod_less_divisor zero_less_numeral)
  then show ?thesis
    by (auto simp: trainer_inv_def consistent_initial)
qed

lemma train_consistent:
  assumes "train cls corpus target = Inr (vocab, mt)"
  shows "consistent vocab mt"
proof -
  let ?st = "\<lparr>chunk_symbols = map (map of_char) (segment cls corpus),
      vocabulary = initial_vocabulary, merge_rules = []\<rparr>"
  from train_loop_inv [OF trainer_inv_initial, of target "segment cls corpus"]
  obtain st' where "train_loop target ?st = Inr st'" "trainer_inv st'" by blast
  with assms show ?thesis
    by (auto simp: train_def trainer_inv_def split: if_splits)
qed

lemma train_total:
  assumes "256 \<le> target"
  shows "\<exists>vocab mt. train cls corpus target = Inr (vocab, mt)"
proof -
  let ?st = "\<lparr>chunk_symbols = map (map of_char) (segment cls corpus),
      vocabulary = initial_vocabulary, merge_rules = []\<rparr>"
  from train_loop_inv [OF trainer_inv_initial, of target "segment cls corpus"]
  obtain st' where "train_loop target ?st = Inr st'" by blast
  with assms show ?thesis by (simp add: train_def)
qed

lemma decode_append:
  "decode (ts @ us) vocab =
     (case decode ts vocab of
        Inl e \<Rightarrow> Inl e
      | Inr a \<Rightarrow> (case decode us vocab of Inl e \<Rightarrow> Inl e | Inr b \<Rightarrow> Inr (a @ b)))"
  by (induction ts) (auto split: sum.splits)

lemma decode_lookup:
  "decode toks vocab = Inr bytes \<longleftrightarrow>
     (\<exists>parts. list_all2 (\<lambda>t p. vocab_lookup vocab t = Inr p) toks parts \<and> bytes = concat parts)"
proof (induction toks arbitrary: bytes)
  case Nil
  then show ?case by auto
next
  case (Cons t toks)
  show ?case
  proof
    assume "decode (t # toks) vocab = Inr bytes"
    then obtain p rest where p: "vocab_lookup vocab t = Inr p" "decode toks vocab = Inr rest"
      "bytes = p @ rest"
      by (auto split: sum.splits)
    with Cons.IH [of rest] obtain parts where
      "list_all2 (\<lambda>t p. vocab_lookup vocab t = Inr p) toks parts" "rest = concat parts"
      by blast
    with p have "list_all2 (\<lambda>t p. vocab_lookup vocab t = Inr p) (t # toks) (p # parts)
        \<and> bytes = concat (p # parts)"
      by simp
    then show "\<exists>parts. list_all2 (\<lambda>t p. vocab_lookup vocab t = Inr p) (t # toks) parts
        \<and> bytes = concat parts"
      by blast
  next
    assume "\<exists>parts. list_all2 (\<lambda>t p. vocab_lookup vocab t = Inr p) (t # toks) parts
        \<and> bytes = concat parts"
    then obtain p parts where p: "vocab_lookup vocab t = Inr p"
      "list_all2 (\<lambda>t p. vocab_lookup vocab t = Inr p) toks parts" "bytes = p @ concat parts"
      by (auto simp: list_all2_Cons1)
    with Cons.IH [of "concat parts"] have "decode toks vocab = Inr (concat parts)" by blast
    with p show "decode (t # toks) vocab = Inr bytes" by simp
  qed
qed

lemma decode_merge_scan:
  assumes "map_of vocab l = Some bl" "map_of vocab r = Some br" "map_of vocab idx = Some (bl @ br)"
  shows "decode (merge_scan (l, r) idx syms) vocab = decode syms vocab"
  using assms
  by (induction "(l, r)" idx syms rule: merge_scan.induct)
     (auto simp: vocab_lookup_def split: sum.splits)

lemma rank_of_nth: "rank_of mt p = Some k \<Longrightarrow> k < length mt \<and> mt ! k = p"
  by (induction mt arbitrary: k) (auto split: if_splits)

lemma encode_chunk_decode:
  "consistent vocab mt \<Longrightarrow>
   \<exists>out. encode_chunk mt syms = Inr out \<and> decode out vocab = decode syms vocab"
proof (induction mt syms rule: encode_chunk.induct)
  case (1 mt syms)
  show ?case
  proof (cases "length syms < 2 \<or> lowest_rank mt (adjacent syms) = None")
    case True
    then have "encode_chunk mt syms = Inr syms"
      by (subst encode_chunk.simps) auto
    then show ?thesis by simp
  next
    case False
    then obtain k pair where lr: "lowest_rank mt (adjacent syms) = Some (k, pair)" by auto
    define syms' where "syms' = merge_scan pair (256 + k) syms"
    have rp: "replace_pairs syms pair (256 + k) = Inr syms'"
      by (simp add: replace_pairs_scan syms'_def)
    from False lr rp have step: "encode_chunk mt syms = encode_chunk mt syms'"
      by (subst encode_chunk.simps) simp
    from False lr rp "1.IH" [of "(k, pair)" k pair syms'] "1.prems"
    obtain out where out: "encode_chunk mt syms' = Inr out" "decode out vocab = decode syms' vocab"
      by auto
    from lowest_rank_present [OF lr] have "rank_of mt pair = Some k" by simp
    then have k: "k < length mt" "mt ! k = pair" using rank_of_nth by blast+
    with "1.prems" obtain bl br where
      "map_of vocab (fst pair) = Some bl" "map_of vocab (snd pair) = Some br"
      "map_of vocab (256 + k) = Some (bl @ br)"
      unfolding consistent_def by blast
    then have "decode (merge_scan (fst pair, snd pair) (256 + k) syms) vocab = decode syms vocab"
      by (rule decode_merge_scan)
    then have "decode syms' vocab = decode syms vocab" by (simp add: syms'_def)
    with step out show ?thesis by simp
  qed
qed

lemma of_char_byte: "of_char c < (256 :: nat)"
  by (metis of_char_mod_256 mod_less_divisor zero_less_numeral)

lemma decode_bytes:
  "consistent vocab mt \<Longrightarrow> decode (map of_char chunk) vocab = Inr chunk"
proof (induction chunk)
  case Nil
  then show ?case by simp
next
  case (Cons c chunk)
  from Cons.prems have "map_of vocab (of_char c) = Some [char_of (of_char c :: nat)]"
    unfolding consistent_def using of_char_byte by blast
  with Cons show ?case by (simp add: vocab_lookup_def)
qed

lemma encode_chunks_decode:
  "consistent vocab mt \<Longrightarrow>
   \<exists>out. encode_chunks mt chunks = Inr out \<and> decode out vocab = Inr (concat chunks)"
proof (induction chunks)
  case Nil
  then show ?case by simp
next
  case (Cons chunk chunks)
  from encode_chunk_decode [OF Cons.prems, of "map of_char chunk"] obtain a where
    a: "encode_chunk mt (map of_char chunk) = Inr a"
      "decode a vocab = decode (map of_char chunk) vocab"
    by blast
  from Cons obtain b where b: "encode_chunks mt chunks = Inr b" "decode b vocab = Inr (concat chunks)"
    by blast
  from a(2) decode_bytes [OF Cons.prems] have "decode a vocab = Inr chunk" by simp
  with a(1) b show ?case by (simp add: decode_append)
qed

lemma round_trip:
  assumes "consistent vocab mt"
  shows "\<exists>toks. encode cls x vocab mt = Inr toks \<and> decode toks vocab = Inr x"
  using encode_chunks_decode [OF assms, of "segment cls x"]
  by (simp add: encode_def concat_segment)

lemma lowest_rank_None: "lowest_rank mt ps = None \<longleftrightarrow> (\<forall>q \<in> set ps. rank_of mt q = None)"
  by (induction ps) (auto split: option.splits)

lemma lowest_rank_min:
  "lowest_rank mt ps = Some (k, p) \<Longrightarrow> q \<in> set ps \<Longrightarrow> rank_of mt q = Some j \<Longrightarrow> k \<le> j"
proof (induction ps arbitrary: k p)
  case Nil
  then show ?case by simp
next
  case (Cons x ps)
  show ?case
  proof (cases "lowest_rank mt ps")
    case None
    then have "\<forall>q \<in> set ps. rank_of mt q = None" by (simp add: lowest_rank_None)
    with Cons.prems None show ?thesis by (auto split: option.splits)
  next
    case (Some kp)
    obtain k' p' where kp: "kp = (k', p')" by (cases kp)
    from Some kp Cons.IH [of k' p'] have ih: "q \<in> set ps \<Longrightarrow> k' \<le> j"
      using Cons.prems(3) by simp
    from Cons.prems Some kp ih show ?thesis
      by (auto split: option.splits if_splits)
  qed
qed

lemma encode_chunk_step:
  assumes "2 \<le> length syms" and "lowest_rank mt (adjacent syms) = Some (k, p)"
  shows "encode_chunk mt syms = encode_chunk mt (merge_scan p (256 + k) syms)"
  using assms by (subst encode_chunk.simps) (simp add: replace_pairs_scan)

lemma encode_chunk_stop:
  assumes "lowest_rank mt (adjacent syms) = None"
  shows "encode_chunk mt syms = Inr syms"
  using assms by (subst encode_chunk.simps) simp

lemma encode_abc:
  assumes "a < 256" "b < 256"
  shows "lowest_rank [(a, b), (b, c)] (adjacent [a, b, c]) = Some (0, (a, b))"
    and "encode_chunk [(a, b), (b, c)] [a, b, c] = Inr [256, c]"
proof -
  show 1: "lowest_rank [(a, b), (b, c)] (adjacent [a, b, c]) = Some (0, (a, b))"
    by simp
  have "lowest_rank [(a, b), (b, c)] (adjacent [256, c]) = None"
    using assms by simp
  then have "encode_chunk [(a, b), (b, c)] [256, c] = Inr [256, c]"
    by (rule encode_chunk_stop)
  moreover have "encode_chunk [(a, b), (b, c)] [a, b, c]
      = encode_chunk [(a, b), (b, c)] (merge_scan (a, b) (256 + 0) [a, b, c])"
    using 1 by (intro encode_chunk_step) simp_all
  ultimately show "encode_chunk [(a, b), (b, c)] [a, b, c] = Inr [256, c]"
    by simp
qed

lemma encode_bcabc:
  "max_key (get_stats [98, 99, 97, 98, 99 :: nat]) = Inr (98, 99)"
  "lowest_rank [(97, 98), (98, 99)] (adjacent [98, 99, 97, 98, 99]) = Some (0, (97, 98))"
  "encode_chunk [(97, 98), (98, 99)] [98, 99, 97, 98, 99] = Inr [257, 256, 99]"
  by code_simp+

lemma char_of_32_100: "char_of (32 :: nat) = CHR '' ''" "char_of (100 :: nat) = CHR ''d''"
proof -
  have "of_char (CHR '' '') = (32 :: nat)" "of_char (CHR ''d'') = (100 :: nat)" by simp_all
  then show "char_of (32 :: nat) = CHR '' ''" "char_of (100 :: nat) = CHR ''d''"
    by (metis char_of_char)+
qed

lemma lookup_initial:
  "vocab_lookup initial_vocabulary 32 = Inr '' ''"
  "vocab_lookup initial_vocabulary 100 = Inr ''d''"
  by (simp_all add: vocab_lookup_def initial_vocabulary_def map_of_tabulate char_of_32_100)

text \<open>
  What the trainer counts: a pair counted over several chunks is adjacent inside one of
  them, and its count is the sum of its counts inside the chunks.
\<close>

lemma count_list_concat:
  "count_list (concat xss) x = sum_list (map (\<lambda>xs. count_list xs x) xss)"
  by (induction xss) simp_all

lemma counted_in_chunk:
  assumes "(p, n) \<in> set (foldl (\<lambda>stats chunk. count_pairs stats (adjacent chunk)) [] chunks)"
  shows "(\<exists>c \<in> set chunks. p \<in> set (adjacent c))
    \<and> n = sum_list (map (\<lambda>c. count_list (adjacent c) p) chunks)"
proof -
  from assms have m: "(p, n) \<in> set (count_pairs [] (concat (map adjacent chunks)))"
    by (simp add: foldl_count_pairs)
  then have "p \<in> fst ` set (count_pairs [] (concat (map adjacent chunks)))"
    by (metis fst_conv image_eqI)
  then have "p \<in> set (concat (map adjacent chunks))" by (simp add: keys_count_pairs)
  then have 1: "\<exists>c \<in> set chunks. p \<in> set (adjacent c)" by auto
  from count_pairs_value [OF m] have "n = count_list (concat (map adjacent chunks)) p" .
  then have "n = sum_list (map (\<lambda>c. count_list (adjacent c) p) chunks)"
    by (simp add: count_list_concat comp_def)
  with 1 show ?thesis by simp
qed

text \<open>
  \<open>chunks_inv\<close> holds before the first merge and after every merge step: the selected pair
  is adjacent inside one chunk, whose symbols expand to that chunk, so the expansion of
  the new symbol is a piece of that chunk, and rewriting changes no expansion.
\<close>

lemma adjacent_split: "(a, b) \<in> set (adjacent xs) \<Longrightarrow> \<exists>u v. xs = u @ a # b # v"
proof (induction xs)
  case Nil
  then show ?case by simp
next
  case (Cons x xs)
  show ?case
  proof (cases xs)
    case Nil
    with Cons.prems show ?thesis by simp
  next
    case (Cons y ys)
    show ?thesis
    proof (cases "(a, b) = (x, y)")
      case True
      with Cons have "x # xs = [] @ a # b # ys" by simp
      then show ?thesis by blast
    next
      case False
      with Cons.prems Cons have "(a, b) \<in> set (adjacent xs)" by auto
      with Cons.IH obtain u v where "xs = u @ a # b # v" by blast
      then have "x # xs = (x # u) @ a # b # v" by simp
      then show ?thesis by blast
    qed
  qed
qed

lemma decode_pair_sublist:
  assumes "decode syms vocab = Inr c" and "(a, b) \<in> set (adjacent syms)"
    and "map_of vocab a = Some l" and "map_of vocab b = Some r"
  shows "sublist (l @ r) c"
proof -
  from adjacent_split [OF assms(2)] obtain u v where "syms = u @ a # b # v" by blast
  with assms(1,3,4) obtain du dv where "c = du @ (l @ r) @ dv"
    by (auto simp: decode_append vocab_lookup_def split: sum.splits)
  then show ?thesis unfolding sublist_def by blast
qed

lemma decode_snoc:
  assumes "decode syms vocab = Inr c"
  shows "decode syms (vocab @ [(k, v)]) = Inr c"
  using assms
proof (induction syms arbitrary: c)
  case Nil
  then show ?case by simp
next
  case (Cons s syms)
  from Cons.prems obtain bs rest where 1: "map_of vocab s = Some bs" "decode syms vocab = Inr rest"
    "c = bs @ rest"
    by (auto simp: vocab_lookup_def split: sum.splits option.splits)
  from map_of_snoc_old [OF 1(1)] have "vocab_lookup (vocab @ [(k, v)]) s = Inr bs"
    by (simp add: vocab_lookup_def del: map_of_append)
  with Cons.IH [OF 1(2)] 1(3) show ?case by simp
qed

lemma merge_step_chunks_inv:
  assumes inv: "chunks_inv chunks st"
    and pair: "pair \<in> set (concat (map adjacent (chunk_symbols st)))"
    and step: "merge_step st pair = Inr st'"
  shows "chunks_inv chunks st'"
proof -
  let ?n = "256 + length (merge_rules st)"
  from inv have tinv: "trainer_inv st"
    and dec: "list_all2 (\<lambda>c syms. decode syms (vocabulary st) = Inr c) chunks (chunk_symbols st)"
    and sub: "\<forall>i < length (merge_rules st). \<exists>bs.
           map_of (vocabulary st) (256 + i) = Some bs \<and> (\<exists>c \<in> set chunks. sublist bs c)"
    unfolding chunks_inv_def by blast+
  from merge_step_inv [OF tinv pair] step obtain l r where
    t': "trainer_inv st'"
    and mr: "merge_rules st' = merge_rules st @ [pair]"
    and cs: "chunk_symbols st' = map (merge_scan pair ?n) (chunk_symbols st)"
    and l: "map_of (vocabulary st) (fst pair) = Some l"
    and r: "map_of (vocabulary st) (snd pair) = Some r"
    and v: "vocabulary st' = vocabulary st @ [(?n, l @ r)]"
    by auto
  from tinv have keys: "map fst (vocabulary st) = [0..<?n]"
    unfolding trainer_inv_def consistent_def by blast
  have new: "map_of (vocabulary st') ?n = Some (l @ r)"
    unfolding v using keys by (rule map_of_snoc_new)
  have l': "map_of (vocabulary st') (fst pair) = Some l"
    unfolding v using l by (rule map_of_snoc_old)
  have r': "map_of (vocabulary st') (snd pair) = Some r"
    unfolding v using r by (rule map_of_snoc_old)
  have scan: "decode (merge_scan pair ?n syms) (vocabulary st') = decode syms (vocabulary st')"
    for syms
    using decode_merge_scan [OF l' r' new, of syms] by simp
  have dec': "list_all2 (\<lambda>c syms. decode syms (vocabulary st') = Inr c) chunks (chunk_symbols st')"
    unfolding cs list_all2_map2
    using dec
  proof (rule list_all2_mono)
    fix c syms assume "decode syms (vocabulary st) = Inr c"
    then have "decode syms (vocabulary st') = Inr c" unfolding v by (rule decode_snoc)
    then show "decode (merge_scan pair ?n syms) (vocabulary st') = Inr c" by (simp only: scan)
  qed
  from pair obtain syms where syms: "syms \<in> set (chunk_symbols st)" "pair \<in> set (adjacent syms)"
    by auto
  from syms(1) obtain j where j: "j < length (chunk_symbols st)" "chunk_symbols st ! j = syms"
    by (auto simp: in_set_conv_nth)
  with dec have "j < length chunks" "decode syms (vocabulary st) = Inr (chunks ! j)"
    by (auto simp: list_all2_conv_all_nth)
  then obtain c where c: "c \<in> set chunks" "decode syms (vocabulary st) = Inr c"
    using nth_mem by blast
  from syms(2) have "(fst pair, snd pair) \<in> set (adjacent syms)" by simp
  from decode_pair_sublist [OF c(2) this l r] have lr: "sublist (l @ r) c" .
  have sub': "\<exists>bs. map_of (vocabulary st') (256 + i) = Some bs \<and> (\<exists>c \<in> set chunks. sublist bs c)"
    if "i < length (merge_rules st')" for i
  proof (cases "i < length (merge_rules st)")
    case True
    with sub obtain bs where "map_of (vocabulary st) (256 + i) = Some bs"
      "\<exists>c \<in> set chunks. sublist bs c" by blast
    then show ?thesis unfolding v using map_of_snoc_old by fast
  next
    case False
    with that mr have "256 + i = ?n" by simp
    with new lr c(1) show ?thesis by auto
  qed
  from t' dec' sub' show ?thesis unfolding chunks_inv_def by blast
qed

lemma train_loop_chunks_inv:
  "chunks_inv chunks st \<Longrightarrow> train_loop target st = Inr st' \<Longrightarrow> chunks_inv chunks st'"
proof (induction target st rule: train_loop.induct)
  case (1 target st)
  let ?stats = "filter (\<lambda>(k, v). v > 1) (pair_counter (chunk_symbols st))"
  show ?case
  proof (cases "?stats = [] \<or> target \<le> length (vocabulary st)")
    case True
    then have "train_loop target st = Inr st"
      by (subst train_loop.simps) (simp add: Let_def)
    with "1.prems" show ?thesis by simp
  next
    case False
    then obtain pair where p: "max_key ?stats = Inr pair"
      by (cases ?stats) auto
    from "1.prems"(1) have "trainer_inv st" by (simp add: chunks_inv_def)
    from selected_in_chunk [OF p] merge_step_inv [OF this]
    obtain st1 where s: "merge_step st pair = Inr st1" by blast
    from merge_step_chunks_inv [OF "1.prems"(1) selected_in_chunk [OF p] s]
    have i1: "chunks_inv chunks st1" .
    from False p s have "train_loop target st = train_loop target st1"
      by (subst train_loop.simps) (simp add: Let_def)
    with "1.prems"(2) have "train_loop target st1 = Inr st'" by simp
    from "1.IH" [OF refl False p s i1 this] show ?thesis .
  qed
qed

lemma chunks_inv_initial:
  "chunks_inv chunks \<lparr>chunk_symbols = map (map of_char) chunks,
      vocabulary = initial_vocabulary, merge_rules = []\<rparr>"
  unfolding chunks_inv_def
  by (simp add: trainer_inv_initial list_all2_map2 list.rel_refl decode_bytes [OF consistent_initial])

lemma train_chunks:
  assumes "train cls corpus target = Inr (vocab, mt)"
  shows "\<exists>st. train_loop target \<lparr>chunk_symbols = map (map of_char) (segment cls corpus),
           vocabulary = initial_vocabulary, merge_rules = []\<rparr> = Inr st
      \<and> vocabulary st = vocab \<and> merge_rules st = mt
      \<and> chunks_inv (segment cls corpus) st"
proof -
  let ?st = "\<lparr>chunk_symbols = map (map of_char) (segment cls corpus),
      vocabulary = initial_vocabulary, merge_rules = []\<rparr>"
  from assms obtain st where st: "train_loop target ?st = Inr st" "vocabulary st = vocab"
    "merge_rules st = mt"
    by (auto simp: train_def split: if_splits sum.splits)
  from train_loop_chunks_inv [OF chunks_inv_initial st(1)] st show ?thesis by simp
qed

lemma learned_in_chunk:
  assumes "train cls corpus target = Inr (vocab, mt)" and "i < length mt"
  shows "\<exists>bs. vocab_lookup vocab (256 + i) = Inr bs \<and> (\<exists>c \<in> set (segment cls corpus). sublist bs c)"
proof -
  from train_chunks [OF assms(1)] obtain st where "vocabulary st = vocab" "merge_rules st = mt"
    "chunks_inv (segment cls corpus) st" by blast
  with assms(2) obtain bs where "map_of vocab (256 + i) = Some bs"
    "\<exists>c \<in> set (segment cls corpus). sublist bs c"
    unfolding chunks_inv_def by blast
  then show ?thesis by (auto simp: vocab_lookup_def)
qed

lemma encode_chunks_parts:
  "consistent vocab mt \<Longrightarrow>
   \<exists>parts. encode_chunks mt chunks = Inr (concat parts)
     \<and> list_all2 (\<lambda>c ts. decode ts vocab = Inr c) chunks parts"
proof (induction chunks)
  case Nil
  then show ?case by simp
next
  case (Cons chunk chunks)
  from encode_chunk_decode [OF Cons.prems, of "map of_char chunk"] obtain a where
    a: "encode_chunk mt (map of_char chunk) = Inr a"
      "decode a vocab = decode (map of_char chunk) vocab"
    by blast
  from a(2) decode_bytes [OF Cons.prems] have d: "decode a vocab = Inr chunk" by simp
  from Cons obtain parts where b: "encode_chunks mt chunks = Inr (concat parts)"
    "list_all2 (\<lambda>c ts. decode ts vocab = Inr c) chunks parts"
    by blast
  with a(1) d have "encode_chunks mt (chunk # chunks) = Inr (concat (a # parts))
     \<and> list_all2 (\<lambda>c ts. decode ts vocab = Inr c) (chunk # chunks) (a # parts)"
    by simp
  then show ?case by blast
qed

lemma counted_inside:
  assumes "(p, k) \<in> set (pair_counter chunks)"
  shows "(\<exists>c \<in> set chunks. p \<in> set (adjacent c))
    \<and> k = sum_list (map (\<lambda>c. count_list (adjacent c) p) chunks)"
  using assms counted_in_chunk [of p k chunks]
  by (simp add: pair_counter_def sorted_items_def)

text \<open>
  Training on \<open>my dog. your dog.\<close>, round by round: the pairs that occur more than once,
  the selected pair and the merge step, until no pair occurs more than once.
\<close>

lemma length_initial_vocabulary: "length initial_vocabulary = 256"
  by (simp add: initial_vocabulary_def)

lemma lookup_byte:
  "s < 256 \<Longrightarrow> vocab_lookup (initial_vocabulary @ ext) s = Inr [char_of s]"
  by (simp add: vocab_lookup_def initial_vocabulary_def map_of_tabulate map_add_def)

lemma lookup_learned:
  "256 \<le> s \<Longrightarrow> vocab_lookup (initial_vocabulary @ ext) s =
     (case map_of ext s of None \<Rightarrow> Inl UnknownTokenError | Some bs \<Rightarrow> Inr bs)"
  by (simp add: vocab_lookup_def initial_vocabulary_def map_of_tabulate map_add_def)

lemma char_of_111_103: "char_of (111 :: nat) = CHR ''o''" "char_of (103 :: nat) = CHR ''g''"
proof -
  have "of_char (CHR ''o'') = (111 :: nat)" "of_char (CHR ''g'') = (103 :: nat)" by simp_all
  then show "char_of (111 :: nat) = CHR ''o''" "char_of (103 :: nat) = CHR ''g''"
    by (metis char_of_char)+
qed

lemma my_dog_symbols:
  "map (map of_char) (segment ascii_classes ''my dog. your dog.'') = my_dog_symbols"
  by (simp add: segment_my_dog my_dog_symbols_def)

lemma stats_0:
  "filter (\<lambda>(k, v). v > 1) (pair_counter my_dog_symbols)
     = [((32, 100), 2), ((100, 111), 2), ((111, 103), 2)]"
  by code_simp

lemma stats_1:
  "filter (\<lambda>(k, v). v > 1) (pair_counter (map (merge_scan (32, 100) 256) my_dog_symbols))
     = [((256, 111), 2), ((111, 103), 2)]"
  by code_simp

lemma stats_2:
  "filter (\<lambda>(k, v). v > 1)
     (pair_counter (map (merge_scan (256, 111) 257) (map (merge_scan (32, 100) 256) my_dog_symbols)))
     = [((257, 103), 2)]"
  by code_simp

lemma stats_3:
  "filter (\<lambda>(k, v). v > 1)
     (pair_counter (map (merge_scan (257, 103) 258)
        (map (merge_scan (256, 111) 257) (map (merge_scan (32, 100) 256) my_dog_symbols))))
     = []"
  by code_simp

lemma train_loop_stop:
  "filter (\<lambda>(k, v). v > 1) (pair_counter (chunk_symbols st)) = [] \<or> target \<le> length (vocabulary st)
   \<Longrightarrow> train_loop target st = Inr st"
  by (subst train_loop.simps) (simp add: Let_def)

lemma train_loop_merge:
  assumes "max_key (filter (\<lambda>(k, v). v > 1) (pair_counter (chunk_symbols st))) = Inr pair"
    and "length (vocabulary st) < target"
    and "merge_step st pair = Inr st'"
  shows "train_loop target st = train_loop target st'"
proof -
  from assms(1) have "filter (\<lambda>(k, v). v > 1) (pair_counter (chunk_symbols st)) \<noteq> []"
    by auto
  with assms show ?thesis by (subst train_loop.simps) (simp add: Let_def)
qed

lemma selected_my_dog:
  "max_key (filter (\<lambda>(k, v). v > 1) (pair_counter my_dog_symbols)) = Inr (32, 100)"
  "max_key (filter (\<lambda>(k, v). v > 1)
     (pair_counter (map (merge_scan (32, 100) 256) my_dog_symbols))) = Inr (256, 111)"
  "max_key (filter (\<lambda>(k, v). v > 1)
     (pair_counter (map (merge_scan (256, 111) 257) (map (merge_scan (32, 100) 256) my_dog_symbols))))
     = Inr (257, 103)"
  by (simp_all only: stats_0 stats_1 stats_2) simp_all

lemma train_my_dog:
  assumes "259 \<le> target"
  shows "train ascii_classes ''my dog. your dog.'' target =
     Inr (initial_vocabulary @ [(256, '' d''), (257, '' do''), (258, '' dog'')],
          [(32, 100), (256, 111), (257, 103)])"
proof -
  let ?c0 = my_dog_symbols
  let ?c1 = "map (merge_scan (32, 100) 256) ?c0"
  let ?c2 = "map (merge_scan (256, 111) 257) ?c1"
  let ?c3 = "map (merge_scan (257, 103) 258) ?c2"
  let ?s0 = "\<lparr>chunk_symbols = ?c0, vocabulary = initial_vocabulary @ [], merge_rules = []\<rparr>"
  let ?s1 = "\<lparr>chunk_symbols = ?c1, vocabulary = initial_vocabulary @ [(256, '' d'')],
      merge_rules = [(32, 100)]\<rparr>"
  let ?s2 = "\<lparr>chunk_symbols = ?c2, vocabulary = initial_vocabulary @ [(256, '' d''), (257, '' do'')],
      merge_rules = [(32, 100), (256, 111)]\<rparr>"
  let ?s3 = "\<lparr>chunk_symbols = ?c3,
      vocabulary = initial_vocabulary @ [(256, '' d''), (257, '' do''), (258, '' dog'')],
      merge_rules = [(32, 100), (256, 111), (257, 103)]\<rparr>"
  have m0: "merge_step ?s0 (32, 100) = Inr ?s1"
    by (simp add: merge_step_def rewrite_chunks_scan lookup_byte char_of_32_100 char_of_111_103 del: append_Nil2)
  have m1: "merge_step ?s1 (256, 111) = Inr ?s2"
    by (simp add: merge_step_def rewrite_chunks_scan lookup_byte lookup_learned char_of_32_100 char_of_111_103)
  have m2: "merge_step ?s2 (257, 103) = Inr ?s3"
    by (simp add: merge_step_def rewrite_chunks_scan lookup_byte lookup_learned char_of_32_100 char_of_111_103)
  have len: "length (vocabulary ?s0) < target" "length (vocabulary ?s1) < target"
    "length (vocabulary ?s2) < target"
    using assms by (simp_all add: length_initial_vocabulary)
  have "train_loop target ?s0 = train_loop target ?s1"
    by (rule train_loop_merge [OF _ len(1) m0]) (simp only: trainer.select_convs selected_my_dog)
  also have "\<dots> = train_loop target ?s2"
    by (rule train_loop_merge [OF _ len(2) m1]) (simp only: trainer.select_convs selected_my_dog)
  also have "\<dots> = train_loop target ?s3"
    by (rule train_loop_merge [OF _ len(3) m2]) (simp only: trainer.select_convs selected_my_dog)
  also have "\<dots> = Inr ?s3"
    by (rule train_loop_stop) (simp only: trainer.select_convs stats_3 simp_thms)
  finally have "train_loop target ?s0 = Inr ?s3" .
  with assms show ?thesis by (simp add: train_def my_dog_symbols)
qed

lemma my_dog_no_full_stop:
  assumes "train ascii_classes ''my dog. your dog.'' target = Inr (vocab, mt)" and "i < length mt"
  shows "\<exists>bs. vocab_lookup vocab (256 + i) = Inr bs
    \<and> \<not> (CHR ''.'' \<in> set bs \<and> (\<exists>c \<in> set bs. is_letter ascii_classes c))"
proof -
  from learned_in_chunk [OF assms] obtain bs chunk where
    bs: "vocab_lookup vocab (256 + i) = Inr bs"
    and ch: "chunk \<in> set (segment ascii_classes ''my dog. your dog.'')"
    and sub: "sublist bs chunk"
    by blast
  from sub have s: "set bs \<subseteq> set chunk" by (rule set_mono_sublist)
  from ch have "chunk \<in> {''my'', '' dog'', ''.'', '' your''}"
    by (auto simp: segment_my_dog)
  then have "CHR ''.'' \<notin> set chunk \<or> (\<forall>c \<in> set chunk. \<not> is_letter ascii_classes c)"
    by (auto simp: ascii_classes_def)
  with s have "\<not> (CHR ''.'' \<in> set bs \<and> (\<exists>c \<in> set bs. is_letter ascii_classes c))"
    by auto
  with bs show ?thesis by blast
qed

text \<open>
  Claim C1. For every Vocabulary and merge list that \<open>train\<close> returns, on any corpus with
  any target, and for every byte sequence \<open>x\<close>, \<open>encode\<close> returns a token sequence and
  \<open>decode\<close> of it is \<open>x\<close>. \<open>train\<close> does return a result for every target of at least 256.
  \<open>decode\<close> looks every token up in the Vocabulary and concatenates the expansions in
  order, and does nothing else.
\<close>

theorem decode_encode_round_trip:
  "(train cls corpus target = Inr (vocab, mt) \<longrightarrow>
      (\<exists>toks. encode cls' x vocab mt = Inr toks \<and> decode toks vocab = Inr x))
   \<and> (256 \<le> target \<longrightarrow> (\<exists>vocab mt. train cls corpus target = Inr (vocab, mt)))
   \<and> (decode toks' vocab' = Inr bytes \<longleftrightarrow>
        (\<exists>parts. list_all2 (\<lambda>t p. vocab_lookup vocab' t = Inr p) toks' parts
           \<and> bytes = concat parts))"
  using round_trip [OF train_consistent, of cls corpus target vocab mt cls' x]
    train_total [of target cls corpus] decode_lookup [of toks' vocab' bytes]
  by blast

theorem decode_encode_round_trip_witness:
  "\<exists>vocab mt toks. train ascii_classes ''my dog. your dog.'' 258 = Inr (vocab, mt)
     \<and> encode ascii_classes ''a dog'' vocab mt = Inr toks
     \<and> decode toks vocab = Inr ''a dog''"
proof -
  have "256 \<le> (258 :: nat)" by simp
  with decode_encode_round_trip [of ascii_classes "''my dog. your dog.''" 258]
  obtain vocab mt where t: "train ascii_classes ''my dog. your dog.'' 258 = Inr (vocab, mt)"
    by blast
  with decode_encode_round_trip
    [of ascii_classes "''my dog. your dog.''" 258 vocab mt ascii_classes "''a dog''"]
  obtain toks where "encode ascii_classes ''a dog'' vocab mt = Inr toks"
    "decode toks vocab = Inr ''a dog''"
    by blast
  with t show ?thesis by blast
qed

text \<open>
  Claim C5. In the Vocabulary and the merge list that \<open>train\<close> returns, the symbols are
  exactly 0 up to 255 plus the number of rules, and for the rule of every rank \<open>i\<close> the
  entry of the symbol \<open>256 + i\<close> is the entry of the left symbol followed by the entry of
  the right symbol. This is part of the invariant \<open>trainer_inv\<close>, which holds at the start
  of training and after every merge step, for a pair taken from the chunks; the merge step
  then succeeds and appends the rule. The loop returns a state with the invariant, and
  \<open>train\<close> returns a result for every target of at least 256.
\<close>

theorem vocabulary_invariant:
  "(train cls corpus target = Inr (vocab, mt) \<longrightarrow>
      map fst vocab = [0..<256 + length mt]
      \<and> (\<forall>i < length mt. \<exists>l r.
            vocab_lookup vocab (fst (mt ! i)) = Inr l
            \<and> vocab_lookup vocab (snd (mt ! i)) = Inr r
            \<and> vocab_lookup vocab (256 + i) = Inr (l @ r)))
   \<and> trainer_inv \<lparr>chunk_symbols = map (map of_char) (segment cls corpus),
        vocabulary = initial_vocabulary, merge_rules = []\<rparr>
   \<and> (trainer_inv st \<and> pair \<in> set (concat (map adjacent (chunk_symbols st))) \<longrightarrow>
        (\<exists>st' l r. merge_step st pair = Inr st' \<and> trainer_inv st'
           \<and> merge_rules st' = merge_rules st @ [pair]
           \<and> vocab_lookup (vocabulary st) (fst pair) = Inr l
           \<and> vocab_lookup (vocabulary st) (snd pair) = Inr r
           \<and> vocabulary st' = vocabulary st @ [(256 + length (merge_rules st), l @ r)]))
   \<and> (trainer_inv st \<longrightarrow> (\<exists>st'. train_loop target st = Inr st' \<and> trainer_inv st'))
   \<and> (256 \<le> target \<longrightarrow> (\<exists>vocab mt. train cls corpus target = Inr (vocab, mt)))"
proof (intro conjI impI)
  assume t: "train cls corpus target = Inr (vocab, mt)"
  from train_consistent [OF t] show "map fst vocab = [0..<256 + length mt]"
    by (simp add: consistent_def)
  from train_consistent [OF t] show "\<forall>i < length mt. \<exists>l r.
            vocab_lookup vocab (fst (mt ! i)) = Inr l
            \<and> vocab_lookup vocab (snd (mt ! i)) = Inr r
            \<and> vocab_lookup vocab (256 + i) = Inr (l @ r)"
    unfolding consistent_def vocab_lookup_def by (metis option.simps(5))
next
  show "trainer_inv \<lparr>chunk_symbols = map (map of_char) (segment cls corpus),
        vocabulary = initial_vocabulary, merge_rules = []\<rparr>"
    by (rule trainer_inv_initial)
next
  assume "trainer_inv st \<and> pair \<in> set (concat (map adjacent (chunk_symbols st)))"
  then obtain st' l r where "merge_step st pair = Inr st'" "trainer_inv st'"
    "merge_rules st' = merge_rules st @ [pair]"
    "map_of (vocabulary st) (fst pair) = Some l"
    "map_of (vocabulary st) (snd pair) = Some r"
    "vocabulary st' = vocabulary st @ [(256 + length (merge_rules st), l @ r)]"
    using merge_step_inv [of st pair] by blast
  then have "merge_step st pair = Inr st' \<and> trainer_inv st'
           \<and> merge_rules st' = merge_rules st @ [pair]
           \<and> vocab_lookup (vocabulary st) (fst pair) = Inr l
           \<and> vocab_lookup (vocabulary st) (snd pair) = Inr r
           \<and> vocabulary st' = vocabulary st @ [(256 + length (merge_rules st), l @ r)]"
    by (simp add: vocab_lookup_def)
  then show "\<exists>st' l r. merge_step st pair = Inr st' \<and> trainer_inv st'
           \<and> merge_rules st' = merge_rules st @ [pair]
           \<and> vocab_lookup (vocabulary st) (fst pair) = Inr l
           \<and> vocab_lookup (vocabulary st) (snd pair) = Inr r
           \<and> vocabulary st' = vocabulary st @ [(256 + length (merge_rules st), l @ r)]"
    by blast
next
  assume "trainer_inv st"
  then show "\<exists>st'. train_loop target st = Inr st' \<and> trainer_inv st'"
    by (rule train_loop_inv)
next
  assume "256 \<le> target"
  then show "\<exists>vocab mt. train cls corpus target = Inr (vocab, mt)"
    by (rule train_total)
qed

theorem vocabulary_invariant_witness:
  "(\<exists>vocab mt. train ascii_classes ''my dog. your dog.'' 258 = Inr (vocab, mt)
      \<and> map fst vocab = [0..<256 + length mt])
   \<and> (\<exists>st'. merge_step
          \<lparr>chunk_symbols = map (map of_char) (segment ascii_classes ''my dog. your dog.''),
           vocabulary = initial_vocabulary, merge_rules = []\<rparr> (32, 100) = Inr st'
        \<and> trainer_inv st'
        \<and> merge_rules st' = [(32, 100)]
        \<and> vocabulary st' = initial_vocabulary @ [(256, '' d'')])"
proof -
  let ?st = "\<lparr>chunk_symbols = map (map of_char) (segment ascii_classes ''my dog. your dog.''),
           vocabulary = initial_vocabulary, merge_rules = []\<rparr>"
  note inst = vocabulary_invariant [of ascii_classes "''my dog. your dog.''" 258 _ _ ?st "(32, 100)"]
  have "256 \<le> (258 :: nat)" by simp
  with inst obtain vocab mt where
    t: "train ascii_classes ''my dog. your dog.'' 258 = Inr (vocab, mt)"
    by blast
  with vocabulary_invariant [of ascii_classes "''my dog. your dog.''" 258 vocab mt]
  have 1: "map fst vocab = [0..<256 + length mt]" by blast
  have p: "(32, 100) \<in> set (concat (map adjacent (chunk_symbols ?st)))"
    by (simp add: segment_my_dog)
  from inst have "trainer_inv ?st" by blast
  with p inst obtain st' l r where s: "merge_step ?st (32, 100) = Inr st'" "trainer_inv st'"
    "merge_rules st' = merge_rules ?st @ [(32, 100)]"
    "vocab_lookup (vocabulary ?st) (fst (32 :: nat, 100 :: nat)) = Inr l"
    "vocab_lookup (vocabulary ?st) (snd (32 :: nat, 100 :: nat)) = Inr r"
    "vocabulary st' = vocabulary ?st @ [(256 + length (merge_rules ?st), l @ r)]"
    by blast
  from s(4,5) have "l = '' ''" "r = ''d''" by (simp_all add: lookup_initial)
  with s have "merge_step ?st (32, 100) = Inr st' \<and> trainer_inv st'
        \<and> merge_rules st' = [(32, 100)]
        \<and> vocabulary st' = initial_vocabulary @ [(256, '' d'')]"
    by simp
  with t 1 show ?thesis by blast
qed

text \<open>
  Claim C8. The trainer counts and rewrites chunk by chunk, so: the expansion of the
  symbol of every learned merge is a contiguous piece of one chunk of the corpus, as the
  Segmenter cuts it, and reaches over no chunk boundary. \<open>pair_counter\<close> counts a pair
  only where its two symbols are adjacent inside one chunk, and the count is the sum of
  the counts in the chunks, so that two symbols on the two sides of a boundary add
  nothing. After training the symbols of every chunk still expand to that chunk, and an
  encoded text is made of one token sequence for each of its chunks. For the corpus
  \<open>my dog. your dog.\<close> no learned symbol holds both the full stop and a letter, with any
  target; with a target of 259 or more the merges are \<open>( , d)\<close>, \<open>( d, o)\<close> and \<open>( do, g)\<close>
  and training ends with \<open>dog\<close> and the full stop apart.
\<close>

theorem no_merge_across_chunks:
  "(train cls corpus target = Inr (vocab, mt) \<longrightarrow>
      (\<forall>i < length mt. \<exists>bs. vocab_lookup vocab (256 + i) = Inr bs
          \<and> (\<exists>chunk \<in> set (segment cls corpus). sublist bs chunk))
      \<and> (\<exists>parts. encode cls' x vocab mt = Inr (concat parts)
            \<and> list_all2 (\<lambda>chunk toks. decode toks vocab = Inr chunk) (segment cls' x) parts))
   \<and> ((p, k) \<in> set (pair_counter chunks) \<longrightarrow>
        (\<exists>c \<in> set chunks. p \<in> set (adjacent c))
        \<and> k = sum_list (map (\<lambda>c. count_list (adjacent c) p) chunks))
   \<and> (train_loop target
          \<lparr>chunk_symbols = map (map of_char) (segment cls corpus),
           vocabulary = initial_vocabulary, merge_rules = []\<rparr> = Inr st \<longrightarrow>
        list_all2 (\<lambda>chunk syms. decode syms (vocabulary st) = Inr chunk)
          (segment cls corpus) (chunk_symbols st))
   \<and> (train ascii_classes ''my dog. your dog.'' target = Inr (vocab, mt) \<longrightarrow>
        (\<forall>i < length mt. \<exists>bs. vocab_lookup vocab (256 + i) = Inr bs
           \<and> \<not> (CHR ''.'' \<in> set bs \<and> (\<exists>c \<in> set bs. is_letter ascii_classes c))))
   \<and> (259 \<le> target \<longrightarrow>
        train ascii_classes ''my dog. your dog.'' target =
          Inr (initial_vocabulary @ [(256, '' d''), (257, '' do''), (258, '' dog'')],
               [(32, 100), (256, 111), (257, 103)]))"
proof -
  have A: "train cls corpus target = Inr (vocab, mt) \<longrightarrow>
      (\<forall>i < length mt. \<exists>bs. vocab_lookup vocab (256 + i) = Inr bs
          \<and> (\<exists>chunk \<in> set (segment cls corpus). sublist bs chunk))
      \<and> (\<exists>parts. encode cls' x vocab mt = Inr (concat parts)
            \<and> list_all2 (\<lambda>chunk toks. decode toks vocab = Inr chunk) (segment cls' x) parts)"
  proof (intro impI conjI allI)
    fix i assume t: "train cls corpus target = Inr (vocab, mt)" and "i < length mt"
    then show "\<exists>bs. vocab_lookup vocab (256 + i) = Inr bs
          \<and> (\<exists>chunk \<in> set (segment cls corpus). sublist bs chunk)"
      by (rule learned_in_chunk)
  next
    assume t: "train cls corpus target = Inr (vocab, mt)"
    from encode_chunks_parts [OF train_consistent [OF t], of "segment cls' x"]
    show "\<exists>parts. encode cls' x vocab mt = Inr (concat parts)
            \<and> list_all2 (\<lambda>chunk toks. decode toks vocab = Inr chunk) (segment cls' x) parts"
      by (simp add: encode_def)
  qed
  have B: "(p, k) \<in> set (pair_counter chunks) \<longrightarrow>
        (\<exists>c \<in> set chunks. p \<in> set (adjacent c))
        \<and> k = sum_list (map (\<lambda>c. count_list (adjacent c) p) chunks)"
    using counted_inside [of p k chunks] by (intro impI)
  have C: "train_loop target
          \<lparr>chunk_symbols = map (map of_char) (segment cls corpus),
           vocabulary = initial_vocabulary, merge_rules = []\<rparr> = Inr st \<longrightarrow>
        list_all2 (\<lambda>chunk syms. decode syms (vocabulary st) = Inr chunk)
          (segment cls corpus) (chunk_symbols st)"
  proof
    assume "train_loop target
          \<lparr>chunk_symbols = map (map of_char) (segment cls corpus),
           vocabulary = initial_vocabulary, merge_rules = []\<rparr> = Inr st"
    from train_loop_chunks_inv [OF chunks_inv_initial this]
    show "list_all2 (\<lambda>chunk syms. decode syms (vocabulary st) = Inr chunk)
          (segment cls corpus) (chunk_symbols st)"
      by (simp add: chunks_inv_def)
  qed
  have D: "train ascii_classes ''my dog. your dog.'' target = Inr (vocab, mt) \<longrightarrow>
        (\<forall>i < length mt. \<exists>bs. vocab_lookup vocab (256 + i) = Inr bs
           \<and> \<not> (CHR ''.'' \<in> set bs \<and> (\<exists>c \<in> set bs. is_letter ascii_classes c)))"
  proof (intro impI allI)
    fix i assume "train ascii_classes ''my dog. your dog.'' target = Inr (vocab, mt)"
      and "i < length mt"
    then show "\<exists>bs. vocab_lookup vocab (256 + i) = Inr bs
           \<and> \<not> (CHR ''.'' \<in> set bs \<and> (\<exists>c \<in> set bs. is_letter ascii_classes c))"
      by (rule my_dog_no_full_stop)
  qed
  have E: "259 \<le> target \<longrightarrow>
        train ascii_classes ''my dog. your dog.'' target =
          Inr (initial_vocabulary @ [(256, '' d''), (257, '' do''), (258, '' dog'')],
               [(32, 100), (256, 111), (257, 103)])"
    using train_my_dog [of target] by (intro impI)
  show ?thesis
    by (intro conjI) (fact A B C D E)+
qed

theorem no_merge_across_chunks_witness:
  "train ascii_classes ''my dog. your dog.'' 300 =
     Inr (initial_vocabulary @ [(256, '' d''), (257, '' do''), (258, '' dog'')],
          [(32, 100), (256, 111), (257, 103)])
   \<and> vocab_lookup (initial_vocabulary @ [(256, '' d''), (257, '' do''), (258, '' dog'')]) 258
       = Inr '' dog''
   \<and> (\<exists>chunk \<in> set (segment ascii_classes ''my dog. your dog.''). sublist '' dog'' chunk)
   \<and> \<not> (CHR ''.'' \<in> set '' dog'' \<and> (\<exists>c \<in> set '' dog''. is_letter ascii_classes c))
   \<and> ((32, 100), 2) \<in> set (pair_counter my_dog_symbols)
   \<and> 2 = sum_list (map (\<lambda>c. count_list (adjacent c) (32, 100)) my_dog_symbols)
   \<and> (103, 46) \<notin> fst ` set (pair_counter my_dog_symbols)"
proof -
  let ?V = "initial_vocabulary @ [(256, '' d''), (257, '' do''), (258, '' dog'')]"
  let ?M = "[(32, 100), (256, 111), (257, 103)] :: merge_table"
  note inst = no_merge_across_chunks
    [where cls = ascii_classes and corpus = "''my dog. your dog.''" and target = 300
       and vocab = ?V and mt = ?M and cls' = ascii_classes and x = "''a dog.''"
       and p = "(32, 100)" and k = 2 and chunks = my_dog_symbols]
  note learned = inst [THEN conjunct1]
    and counted = inst [THEN conjunct2, THEN conjunct1]
    and example = inst [THEN conjunct2, THEN conjunct2, THEN conjunct2, THEN conjunct1]
    and trained = inst [THEN conjunct2, THEN conjunct2, THEN conjunct2, THEN conjunct2]
  from trained have t: "train ascii_classes ''my dog. your dog.'' 300 = Inr (?V, ?M)"
    by simp
  have l: "vocab_lookup ?V 258 = Inr '' dog''"
    by (simp add: lookup_learned)
  have i: "(2 :: nat) < length ?M" by simp
  from learned [THEN mp, OF t, THEN conjunct1, rule_format, OF i]
  have "\<exists>chunk \<in> set (segment ascii_classes ''my dog. your dog.''). sublist '' dog'' chunk"
    by (simp add: l)
  moreover from example [THEN mp, OF t, rule_format, OF i]
  have "\<not> (CHR ''.'' \<in> set '' dog'' \<and> (\<exists>c \<in> set '' dog''. is_letter ascii_classes c))"
    by (simp add: l)
  moreover have c: "((32, 100), 2) \<in> set (pair_counter my_dog_symbols)"
    by code_simp
  moreover from counted [THEN mp, OF c]
  have "2 = sum_list (map (\<lambda>c. count_list (adjacent c) (32, 100)) my_dog_symbols)"
    by (rule conjunct2)
  moreover have "(103, 46) \<notin> fst ` set (pair_counter my_dog_symbols)"
    by code_simp
  ultimately show ?thesis using t l by (intro conjI)
qed

text \<open>
  Claim C9. The pair that \<open>encode_chunk\<close> applies is present in the chunk, has a rule, and
  no pair present has a rule of lower rank; the encoder applies it and goes on, and it
  stops when no pair present has a rule. The counts of the pairs play no part. With the
  merges learned in the order \<open>(a, b)\<close>, \<open>(b, c)\<close> the chunk \<open>a b c\<close> is encoded by applying
  \<open>(a, b)\<close>, to \<open>256 c\<close>. In the chunk \<open>b c a b c\<close> the pair \<open>(b, c)\<close> is the most frequent one,
  and still \<open>(a, b)\<close> is applied first.
\<close>

theorem encode_lowest_rank:
  "(lowest_rank mt ps = Some (k, p) \<longrightarrow>
      p \<in> set ps \<and> rank_of mt p = Some k
      \<and> (\<forall>q \<in> set ps. \<forall>j. rank_of mt q = Some j \<longrightarrow> k \<le> j))
   \<and> (lowest_rank mt ps = None \<longleftrightarrow> (\<forall>q \<in> set ps. rank_of mt q = None))
   \<and> (2 \<le> length syms \<and> lowest_rank mt (adjacent syms) = Some (k', p') \<longrightarrow>
        encode_chunk mt syms = encode_chunk mt (merge_scan p' (256 + k') syms))
   \<and> (lowest_rank mt (adjacent syms) = None \<longrightarrow> encode_chunk mt syms = Inr syms)
   \<and> (a < 256 \<and> b < 256 \<longrightarrow>
        lowest_rank [(a, b), (b, c)] (adjacent [a, b, c]) = Some (0, (a, b))
        \<and> encode_chunk [(a, b), (b, c)] [a, b, c] = Inr [256, c])
   \<and> max_key (get_stats [98, 99, 97, 98, 99 :: nat]) = Inr (98, 99)
   \<and> lowest_rank [(97, 98), (98, 99)] (adjacent [98, 99, 97, 98, 99]) = Some (0, (97, 98))
   \<and> encode_chunk [(97, 98), (98, 99)] [98, 99, 97, 98, 99] = Inr [257, 256, 99]"
  using lowest_rank_present [of mt ps k p] lowest_rank_min [of mt ps k p]
    lowest_rank_None [of mt ps] encode_chunk_step [of syms mt k' p']
    encode_chunk_stop [of mt syms] encode_abc [of a b c] encode_bcabc
  by blast

theorem encode_lowest_rank_witness:
  "lowest_rank [(97, 98), (98, 99)] [(98, 99), (99, 97), (97, 98), (98, 99)] = Some (0, (97, 98))
   \<and> rank_of [(97, 98), (98, 99)] (98, 99) = Some 1
   \<and> encode_chunk [(97, 98), (98, 99)] [97, 98, 99] = Inr [256, 99]
   \<and> encode_chunk [(97, 98), (98, 99)] [98, 99, 97, 98, 99]
       = encode_chunk [(97, 98), (98, 99)] [98, 99, 256, 99]"
proof -
  have l: "lowest_rank [(97, 98), (98, 99)] (adjacent [98, 99, 97, 98, 99]) = Some (0, (97, 98))"
    by simp
  have "(97 :: nat) < 256 \<and> (98 :: nat) < 256" by simp
  with l encode_lowest_rank
    [of "[(97, 98), (98, 99)]" "adjacent [98, 99, 97, 98, 99]" 0 "(97, 98)"
        "[98, 99, 97, 98, 99]" 0 "(97, 98)" 97 98 99]
  show ?thesis by simp
qed

end
